theory Spec2Isabelle
  imports Complex_Main
begin

section \<open>Slot values, players and scores\<close>

text \<open>
  The board flags \<open>PLAYER1\<close> and \<open>PLAYER2\<close> are the two players; a cell holds
  \<open>EMPTY_SLOT\<close> or the disc of a player.
\<close>

datatype player = PLAYER1 | PLAYER2

datatype slot = EMPTY_SLOT | Disc player

text \<open>
  The searches start their running maxima and minima at \<open>-math.inf\<close> and
  \<open>math.inf\<close>; a score is a number or one of the two infinities.
\<close>

datatype 'a score = MinusInf | Num 'a | PlusInf

instantiation score :: (linorder) linorder
begin

definition less_eq_score :: "'a score \<Rightarrow> 'a score \<Rightarrow> bool" where
  "less_eq_score x y =
     (case x of
        MinusInf \<Rightarrow> True
      | Num a \<Rightarrow> (case y of MinusInf \<Rightarrow> False | Num b \<Rightarrow> a \<le> b | PlusInf \<Rightarrow> True)
      | PlusInf \<Rightarrow> (case y of PlusInf \<Rightarrow> True | _ \<Rightarrow> False))"

definition less_score :: "'a score \<Rightarrow> 'a score \<Rightarrow> bool" where
  "less_score x y = (x \<le> y \<and> \<not> y \<le> (x :: 'a score))"

instance
proof
  fix x y z :: "'a score"
  show "(x < y) = (x \<le> y \<and> \<not> y \<le> x)"
    by (simp add: less_score_def)
  show "x \<le> x"
    by (cases x) (simp_all add: less_eq_score_def)
  show "x \<le> y \<Longrightarrow> y \<le> z \<Longrightarrow> x \<le> z"
    by (cases x; cases y; cases z) (simp_all add: less_eq_score_def)
  show "x \<le> y \<Longrightarrow> y \<le> x \<Longrightarrow> x = y"
    by (cases x; cases y) (simp_all add: less_eq_score_def)
  show "x \<le> y \<or> y \<le> x"
    by (cases x; cases y) (auto simp add: less_eq_score_def)
qed

end

section \<open>The board\<close>

text \<open>
  Modelled from the spec: the class \<open>Board\<close> (module \<open>utils\<close>) is not part of the
  sources at hand. Section 3 of the specification gives it \<open>rows\<close>, \<open>cols\<close> and a grid
  of \<open>rows \<times> cols\<close> cells holding slot values, row 0 being the bottom row.
\<close>

record board =
  rows :: nat
  cols :: nat
  cells :: "nat \<Rightarrow> nat \<Rightarrow> slot"

datatype error = InvalidMove | ZeroDivisionError

text \<open>
  Modelled from the spec: \<open>row(r)\<close>, the slot values of row \<open>r\<close> from left to right.
\<close>

definition row :: "board \<Rightarrow> nat \<Rightarrow> slot list" where
  "row b r = map (\<lambda>c. cells b r c) [0..<cols b]"

text \<open>
  Modelled from the spec: \<open>column(c)\<close> (called as \<open>board.col(c)\<close> by the evaluator), the
  slot values of column \<open>c\<close> in the order of the row index.
\<close>

definition col :: "board \<Rightarrow> nat \<Rightarrow> slot list" where
  "col b c = map (\<lambda>r. cells b r c) [0..<rows b]"

text \<open>
  Modelled from the spec: \<open>placeable(col)\<close> holds iff the topmost cell of the column is
  \<open>EMPTY\<close>.
\<close>

definition placeable :: "board \<Rightarrow> nat \<Rightarrow> bool" where
  "placeable b c = (c < cols b \<and> 0 < rows b \<and> cells b (rows b - 1) c = EMPTY_SLOT)"

text \<open>
  Modelled from the spec: \<open>place(player, col)\<close> finds the lowest \<open>EMPTY\<close> row of the
  column and sets it to \<open>player\<close>; it fails with \<open>InvalidMove\<close> when the column is full.
\<close>

definition lowest_empty :: "board \<Rightarrow> nat \<Rightarrow> nat option" where
  "lowest_empty b c = List.find (\<lambda>r. cells b r c = EMPTY_SLOT) [0..<rows b]"

definition place :: "player \<Rightarrow> nat \<Rightarrow> board \<Rightarrow> error + board" where
  "place p c b =
     (case lowest_empty b c of
        None \<Rightarrow> Inl InvalidMove
      | Some r \<Rightarrow> Inr (b\<lparr>cells := (cells b)(r := (cells b r)(c := Disc p))\<rparr>))"

text \<open>
  Modelled from the spec: \<open>clone()\<close> yields an independent copy of the grid. Boards are
  values here, so the copy is the board itself; the store model further below
  makes the independence explicit.
\<close>

definition clone :: "board \<Rightarrow> board" where
  "clone b = b"

text \<open>
  Modelled from the spec: a line segment is a run of exactly 4 cells along a row, a
  column or a diagonal that stays inside the grid; \<open>who_wins()\<close> scans them for four
  equal discs and returns the first winner found, \<open>has_draw()\<close> holds iff every cell is
  occupied and nobody has won, and \<open>terminal()\<close> iff one of the two holds.
\<close>

definition directions :: "(nat \<times> int) list" where
  "directions = [(0, 1), (1, 0), (1, 1), (1, -1)]"

definition line_from :: "board \<Rightarrow> nat \<Rightarrow> nat \<Rightarrow> nat \<times> int \<Rightarrow> slot list option" where
  "line_from b r c d =
     (let dr = fst d; dc = snd d in
      if r + 3 * dr < rows b \<and> 0 \<le> int c + 3 * dc \<and> int c + 3 * dc < int (cols b) \<and>
         r < rows b \<and> c < cols b
      then Some (map (\<lambda>i. cells b (r + i * dr) (nat (int c + int i * dc))) [0..<4])
      else None)"

definition line_segments :: "board \<Rightarrow> slot list list" where
  "line_segments b =
     concat (map (\<lambda>r. concat (map (\<lambda>c. concat (map (\<lambda>d.
        (case line_from b r c d of None \<Rightarrow> [] | Some s \<Rightarrow> [s])) directions))
        [0..<cols b])) [0..<rows b])"

definition segment_winner :: "slot list \<Rightarrow> player option" where
  "segment_winner s =
     (if s = replicate 4 (Disc PLAYER1) then Some PLAYER1
      else if s = replicate 4 (Disc PLAYER2) then Some PLAYER2
      else None)"

fun first_winner :: "slot list list \<Rightarrow> player option" where
  "first_winner [] = None"
| "first_winner (s # ss) =
     (case segment_winner s of Some p \<Rightarrow> Some p | None \<Rightarrow> first_winner ss)"

definition who_wins :: "board \<Rightarrow> player option" where
  "who_wins b = first_winner (line_segments b)"

definition all_occupied :: "board \<Rightarrow> bool" where
  "all_occupied b =
     list_all (\<lambda>r. list_all (\<lambda>c. cells b r c \<noteq> EMPTY_SLOT) [0..<cols b]) [0..<rows b]"

definition has_draw :: "board \<Rightarrow> bool" where
  "has_draw b = (all_occupied b \<and> who_wins b = None)"

definition terminal :: "board \<Rightarrow> bool" where
  "terminal b = (has_draw b \<or> who_wins b \<noteq> None)"

section \<open>Successor generation\<close>

text \<open>
  \<open>get_child_boards\<close>: for every column in increasing order that is placeable, clone the
  board, place the disc on the clone and append the pair to \<open>res\<close>. The placement
  cannot fail after the \<open>placeable\<close> test (lemma \<open>place_placeable\<close> below), so the
  failure branch leaves \<open>res\<close> as it is.
\<close>

definition child_step :: "player \<Rightarrow> board \<Rightarrow> nat \<Rightarrow> (nat \<times> board) list \<Rightarrow> (nat \<times> board) list" where
  "child_step player b c res =
     (if placeable b c
      then (case place player c (clone b) of
              Inr tmp_board \<Rightarrow> res @ [(c, tmp_board)]
            | Inl e \<Rightarrow> res)
      else res)"

definition get_child_boards :: "player \<Rightarrow> board \<Rightarrow> (nat \<times> board) list" where
  "get_child_boards player b = fold (child_step player b) [0..<cols b] []"

section \<open>The evaluator\<close>

definition opponent :: "player \<Rightarrow> player" where
  "opponent p = (if p = PLAYER1 then PLAYER2 else PLAYER1)"

text \<open>
  \<open>invalid_slot\<close> is the value \<open>-1\<close> that pads the sheared rows; it differs from the three
  slot values, so a padded cell is \<open>None\<close> and a cell of the board is \<open>Some\<close> of its slot.
\<close>

definition invalid_slot :: "slot option" where
  "invalid_slot = None"

definition weights :: "int list" where
  "weights = [0, 1, 4, 16, 1000]"

definition left_revolved :: "board \<Rightarrow> slot option list list" where
  "left_revolved b =
     map (\<lambda>r. replicate r invalid_slot @ map Some (row b r) @
               replicate (rows b - 1 - r) invalid_slot) [0..<rows b]"

definition right_revolved :: "board \<Rightarrow> slot option list list" where
  "right_revolved b =
     map (\<lambda>r. replicate (rows b - 1 - r) invalid_slot @ map Some (row b r) @
               replicate r invalid_slot) [0..<rows b]"

text \<open>Python's \<open>zip(*xss)\<close>: the columns of \<open>xss\<close>, as many as the shortest row has.\<close>

definition zip_star :: "'a list list \<Rightarrow> 'a list list" where
  "zip_star xss =
     (case xss of
        [] \<Rightarrow> []
      | xs # rest \<Rightarrow>
          map (\<lambda>j. map (\<lambda>ys. ys ! j) xss) [0..<fold min (map length rest) (length xs)])"

text \<open>Python's slice \<open>xs[i:i+4]\<close>.\<close>

definition slice4 :: "'a list \<Rightarrow> nat \<Rightarrow> 'a list" where
  "slice4 xs i = take 4 (drop i xs)"

definition seg :: "board \<Rightarrow> slot option list list" where
  "seg b =
     concat (map (\<lambda>r. map (\<lambda>c. slice4 (map Some (row b r)) c) [0..<cols b - 3]) [0..<rows b]) @
     concat (map (\<lambda>c. map (\<lambda>r. slice4 (map Some (col b c)) r) [0..<rows b - 3]) [0..<cols b]) @
     concat (map (\<lambda>c. map (\<lambda>r. slice4 c r) [0..<rows b - 3]) (zip_star (left_revolved b))) @
     concat (map (\<lambda>c. map (\<lambda>r. slice4 c r) [0..<rows b - 3]) (zip_star (right_revolved b)))"

text \<open>
  One pass of the scoring loop: a segment with a padded cell is skipped; otherwise it is
  tallied for the player when the adversary is absent, and for the adversary when the
  player is absent (both for an empty segment).
\<close>

definition tally :: "player \<Rightarrow> player \<Rightarrow> slot option list \<Rightarrow> int list \<times> int list \<Rightarrow> int list \<times> int list" where
  "tally player adversary s st =
     (let score = fst st; adv_score = snd st in
      if invalid_slot \<in> set s then (score, adv_score)
      else
        let score' = (if Some (Disc adversary) \<notin> set s
                      then score[count_list s (Some (Disc player)) :=
                                   score ! count_list s (Some (Disc player)) + 1]
                      else score);
            adv_score' = (if Some (Disc player) \<notin> set s
                          then adv_score[count_list s (Some (Disc adversary)) :=
                                   adv_score ! count_list s (Some (Disc adversary)) + 1]
                          else adv_score)
        in (score', adv_score'))"

definition weighted :: "int list \<Rightarrow> int" where
  "weighted score = sum_list (map (\<lambda>(s, w). s * w) (zip score weights))"

definition evaluate :: "player \<Rightarrow> board \<Rightarrow> int" where
  "evaluate player b =
     (let adversary = (if player = PLAYER1 then PLAYER2 else PLAYER1);
          st = fold (tally player adversary) (seg b) (replicate 5 0, replicate 5 0);
          reward = weighted (fst st);
          penalty = weighted (snd st)
      in reward - penalty)"

section \<open>Properties of the evaluator\<close>

lemma opponent_opponent: "opponent (opponent p) = p"
  by (cases p) (simp_all add: opponent_def)

lemma opponent_neq: "opponent p \<noteq> p"
  by (cases p) (simp_all add: opponent_def)

lemma adversary_eq: "(if p = PLAYER1 then PLAYER2 else PLAYER1) = opponent p"
  by (simp add: opponent_def)

lemma tally_swap: "tally a p s (y, x) = prod.swap (tally p a s (x, y))"
  by (simp add: tally_def Let_def)

lemma fold_tally_swap:
  "fold (tally a p) ss (y, x) = prod.swap (fold (tally p a) ss (x, y))"
proof (induction ss arbitrary: x y)
  case Nil
  show ?case by simp
next
  case (Cons s ss)
  obtain x' y' where st: "tally p a s (x, y) = (x', y')"
    by (cases "tally p a s (x, y)")
  have "tally a p s (y, x) = (y', x')"
    using tally_swap [of a p s y x] st by simp
  with st Cons.IH [of y' x'] show ?case by simp
qed

lemma evaluate_opponent: "evaluate (opponent p) b = - evaluate p b"
proof -
  let ?z = "replicate 5 (0::int)"
  have "fold (tally (opponent p) p) (seg b) (?z, ?z) =
        prod.swap (fold (tally p (opponent p)) (seg b) (?z, ?z))"
    by (rule fold_tally_swap)
  then show ?thesis
    unfolding evaluate_def adversary_eq opponent_opponent Let_def by simp
qed

definition valid_segment :: "slot option list \<Rightarrow> bool" where
  "valid_segment s = (invalid_slot \<notin> set s)"

definition gain :: "player \<Rightarrow> player \<Rightarrow> slot option list \<Rightarrow> int" where
  "gain p a s =
     (if valid_segment s \<and> Some (Disc a) \<notin> set s
      then weights ! count_list s (Some (Disc p)) else 0)"

lemma weighted_update:
  assumes "length sc = 5" and "n < 5"
  shows "weighted (sc[n := sc ! n + 1]) = weighted sc + weights ! n"
proof -
  from assms(1) obtain a b c d e where sc: "sc = [a, b, c, d, e]"
    by (auto simp: length_Suc_conv eval_nat_numeral)
  from assms(2) consider "n = 0" | "n = 1" | "n = 2" | "n = 3" | "n = 4"
    by linarith
  then show ?thesis
    by cases (simp_all add: sc weighted_def weights_def)
qed

lemma count_list_le_length: "count_list s x \<le> length s"
  by (induction s) auto

lemma tally_weighted:
  assumes "length (fst st) = 5" and "length (snd st) = 5" and "length s \<le> 4"
  shows "weighted (fst (tally p a s st)) = weighted (fst st) + gain p a s"
    and "weighted (snd (tally p a s st)) = weighted (snd st) + gain a p s"
    and "length (fst (tally p a s st)) = 5"
    and "length (snd (tally p a s st)) = 5"
proof -
  have n: "count_list s x < 5" for x
    using count_list_le_length [of s x] assms(3) by linarith
  show "weighted (fst (tally p a s st)) = weighted (fst st) + gain p a s"
    using assms(1) n by (simp add: tally_def gain_def valid_segment_def Let_def weighted_update)
  show "weighted (snd (tally p a s st)) = weighted (snd st) + gain a p s"
    using assms(2) n by (simp add: tally_def gain_def valid_segment_def Let_def weighted_update)
  show "length (fst (tally p a s st)) = 5"
    using assms(1) by (simp add: tally_def Let_def)
  show "length (snd (tally p a s st)) = 5"
    using assms(2) by (simp add: tally_def Let_def)
qed

lemma fold_tally_weighted:
  assumes "length (fst st) = 5" and "length (snd st) = 5" and "\<forall>s \<in> set ss. length s \<le> 4"
  shows "weighted (fst (fold (tally p a) ss st)) = weighted (fst st) + sum_list (map (gain p a) ss)
       \<and> weighted (snd (fold (tally p a) ss st)) = weighted (snd st) + sum_list (map (gain a p) ss)"
  using assms
proof (induction ss arbitrary: st)
  case Nil
  show ?case by simp
next
  case (Cons s ss)
  have len: "length s \<le> 4" using Cons.prems(3) by simp
  note t = tally_weighted [OF Cons.prems(1) Cons.prems(2) len, of p a]
  have "weighted (fst (fold (tally p a) ss (tally p a s st))) =
          weighted (fst (tally p a s st)) + sum_list (map (gain p a) ss)
      \<and> weighted (snd (fold (tally p a) ss (tally p a s st))) =
          weighted (snd (tally p a s st)) + sum_list (map (gain a p) ss)"
    using Cons.IH [OF t(3) t(4)] Cons.prems(3) by simp
  then show ?case by (simp add: t(1) t(2))
qed

lemma seg_length: "s \<in> set (seg b) \<Longrightarrow> length s \<le> 4"
  by (auto simp: seg_def slice4_def)

lemma weighted_zero: "weighted (replicate 5 0) = 0"
  by (simp add: weighted_def weights_def eval_nat_numeral)

lemma evaluate_gain:
  "evaluate p b = sum_list (map (gain p (opponent p)) (seg b))
                - sum_list (map (gain (opponent p) p) (seg b))"
proof -
  have "\<forall>s \<in> set (seg b). length s \<le> 4"
    using seg_length by blast
  from fold_tally_weighted [of "(replicate 5 0, replicate 5 0)" "seg b" p "opponent p", simplified, OF this]
  show ?thesis
    unfolding evaluate_def adversary_eq Let_def by (simp add: weighted_zero)
qed

text \<open>
  C3 (as amended). The evaluator is exactly antisymmetric: swapping the player for the
  opponent swaps the two tallies, hence reward and penalty, so
  \<open>evaluate(P, B) = -evaluate(opponent(P), B)\<close> for every player and every board.
\<close>

theorem evaluate_antisymmetric: "evaluate p b = - evaluate (opponent p) b"
proof -
  have "evaluate (opponent p) b = - evaluate p b"
    by (rule evaluate_opponent)
  then show ?thesis by simp
qed

text \<open>
  C3 as stated asks for a player and a board at which antisymmetry fails; there is
  none.
\<close>

theorem evaluate_asymmetry_refuted:
  "\<not> (\<exists>p b. evaluate p b \<noteq> - evaluate (opponent p) b)"
proof
  assume "\<exists>p b. evaluate p b \<noteq> - evaluate (opponent p) b"
  then obtain p b where "evaluate p b \<noteq> - evaluate (opponent p) b"
    by blast
  moreover have "evaluate (opponent p) b = - evaluate p b"
    by (rule evaluate_opponent)
  ultimately show False by simp
qed


section \<open>Placement and the measure of the search\<close>

text \<open>
  Every placement fills one empty cell, so the number of empty cells bounds the depth of
  the recursion of the searches, whatever the depth argument is.
\<close>

definition empty_cells :: "board \<Rightarrow> (nat \<times> nat) set" where
  "empty_cells b = {(r, c). r < rows b \<and> c < cols b \<and> cells b r c = EMPTY_SLOT}"

lemma finite_empty_cells: "finite (empty_cells b)"
proof -
  have "empty_cells b \<subseteq> {..<rows b} \<times> {..<cols b}"
    by (auto simp: empty_cells_def)
  then show ?thesis
    by (rule finite_subset) simp
qed

lemma lowest_empty_Some:
  assumes "lowest_empty b c = Some r"
  shows "r < rows b" and "cells b r c = EMPTY_SLOT"
    and "\<And>r'. r' < r \<Longrightarrow> cells b r' c \<noteq> EMPTY_SLOT"
  using assms by (auto simp: lowest_empty_def find_Some_iff)

lemma lowest_empty_None:
  "lowest_empty b c = None \<longleftrightarrow> (\<forall>r < rows b. cells b r c \<noteq> EMPTY_SLOT)"
  by (auto simp: lowest_empty_def find_None_iff)

lemma place_placeable:
  assumes "placeable b c"
  shows "\<exists>b'. place p c b = Inr b'"
proof (cases "lowest_empty b c")
  case None
  with assms show ?thesis
    by (auto simp: lowest_empty_None placeable_def)
next
  case (Some r)
  then show ?thesis by (simp add: place_def)
qed

lemma place_dims:
  assumes "place p c b = Inr b'"
  shows "rows b' = rows b" and "cols b' = cols b"
  using assms by (auto simp: place_def split: option.splits)

lemma place_fewer_empty:
  assumes "place p c b = Inr b'" and "c < cols b"
  shows "card (empty_cells b') < card (empty_cells b)"
proof -
  from assms(1) obtain r where r: "lowest_empty b c = Some r"
    and b': "b' = b\<lparr>cells := (cells b)(r := (cells b r)(c := Disc p))\<rparr>"
    by (auto simp: place_def split: option.splits)
  have in_b: "(r, c) \<in> empty_cells b"
    using lowest_empty_Some(1,2) [OF r] assms(2) by (simp add: empty_cells_def)
  have not_in: "(r, c) \<notin> empty_cells b'"
    by (simp add: empty_cells_def b')
  have "empty_cells b' \<subseteq> empty_cells b"
    by (auto simp: empty_cells_def b' split: if_splits)
  with in_b not_in have "empty_cells b' \<subset> empty_cells b"
    by blast
  then show ?thesis
    by (rule psubset_card_mono [OF finite_empty_cells])
qed

definition successor :: "player \<Rightarrow> board \<Rightarrow> nat \<Rightarrow> (nat \<times> board) list" where
  "successor player b c =
     (if placeable b c
      then (case place player c (clone b) of Inr tmp_board \<Rightarrow> [(c, tmp_board)] | Inl e \<Rightarrow> [])
      else [])"

lemma fold_child_step:
  "fold (child_step player b) cs res = res @ concat (map (successor player b) cs)"
  by (induction cs arbitrary: res)
     (auto simp: child_step_def successor_def split: sum.splits)

lemma get_child_boards_concat:
  "get_child_boards player b = concat (map (successor player b) [0..<cols b])"
  by (simp add: get_child_boards_def fold_child_step)

lemma in_get_child_boards:
  "(c, cb) \<in> set (get_child_boards player b) \<longleftrightarrow> placeable b c \<and> place player c b = Inr cb"
  by (auto simp: get_child_boards_concat successor_def clone_def placeable_def split: sum.splits if_splits)

lemma child_fewer_empty:
  assumes "(c, cb) \<in> set (get_child_boards player b)"
  shows "card (empty_cells cb) < card (empty_cells b)"
  using assms place_fewer_empty [of player c b cb]
  by (simp add: in_get_child_boards placeable_def)

section \<open>Minimax\<close>

text \<open>
  The loops of \<open>max_value\<close> and \<open>min_value\<close> run over the scores of the successors in
  column order; the nested functions \<open>value\<close>, \<open>max_value\<close> and \<open>min_value\<close> take the
  captured \<open>max_player\<close> as their first argument.
\<close>

fun max_loop :: "('a::linorder) score list \<Rightarrow> 'a score \<Rightarrow> 'a score" where
  "max_loop [] max_score = max_score"
| "max_loop (score # rest) max_score =
     max_loop rest (if score > max_score then score else max_score)"

fun min_loop :: "('a::linorder) score list \<Rightarrow> 'a score \<Rightarrow> 'a score" where
  "min_loop [] min_score = min_score"
| "min_loop (score # rest) min_score =
     min_loop rest (if score < min_score then score else min_score)"

function minimax_value :: "player \<Rightarrow> player \<Rightarrow> board \<Rightarrow> int \<Rightarrow> int score"
  and minimax_max_value :: "player \<Rightarrow> player \<Rightarrow> board \<Rightarrow> int \<Rightarrow> int score"
  and minimax_min_value :: "player \<Rightarrow> player \<Rightarrow> board \<Rightarrow> int \<Rightarrow> int score"
where
  "minimax_value max_player current_player current_board depth =
     (if terminal current_board \<or> depth = 0 then Num (evaluate max_player current_board)
      else if current_player = max_player
        then minimax_max_value max_player current_player current_board depth
        else minimax_min_value max_player current_player current_board depth)"
| "minimax_max_value max_player current_player current_board depth =
     max_loop
       (map (\<lambda>(col, child_board).
               minimax_value max_player (opponent current_player) child_board (depth - 1))
            (get_child_boards current_player current_board))
       MinusInf"
| "minimax_min_value max_player current_player current_board depth =
     min_loop
       (map (\<lambda>(col, child_board).
               minimax_value max_player (opponent current_player) child_board (depth - 1))
            (get_child_boards current_player current_board))
       PlusInf"
  by pat_completeness auto
termination
  by (relation "measure (\<lambda>x. case x of
          Inl (mp, cp, b, d) \<Rightarrow> 2 * card (empty_cells b) + 1
        | Inr (Inl (mp, cp, b, d)) \<Rightarrow> 2 * card (empty_cells b)
        | Inr (Inr (mp, cp, b, d)) \<Rightarrow> 2 * card (empty_cells b))")
     (auto dest: child_fewer_empty)

declare minimax_value.simps [simp del]

text \<open>
  The top-level loop keeps \<open>best_score\<close> and \<open>placement\<close>; the search returns the
  placement.
\<close>

fun choose_loop :: "(nat \<times> ('a::linorder) score) list \<Rightarrow> 'a score \<Rightarrow> nat option \<Rightarrow> 'a score \<times> nat option" where
  "choose_loop [] best_score placement = (best_score, placement)"
| "choose_loop ((column, score) # rest) best_score placement =
     (if score > best_score then choose_loop rest score (Some column)
      else choose_loop rest best_score placement)"

definition minimax_search :: "player \<Rightarrow> board \<Rightarrow> int \<Rightarrow> int score \<times> nat option" where
  "minimax_search player b depth_limit =
     choose_loop
       (map (\<lambda>(col, child_board).
               (col, minimax_value player (opponent player) child_board (depth_limit - 1)))
            (get_child_boards player b))
       MinusInf None"

definition minimax :: "player \<Rightarrow> board \<Rightarrow> int \<Rightarrow> nat option" where
  "minimax player b depth_limit = snd (minimax_search player b depth_limit)"

section \<open>Alpha-beta pruning\<close>

text \<open>
  A successor is scored with the bounds current when the loop reaches it, and not at
  all after a cutoff: the loops run over the successors as functions of \<open>alpha\<close> and
  \<open>beta\<close>.
\<close>

fun ab_max_loop :: "(('a::linorder) score \<Rightarrow> 'a score \<Rightarrow> 'a score) list \<Rightarrow> 'a score \<Rightarrow> 'a score \<Rightarrow> 'a score \<Rightarrow> 'a score" where
  "ab_max_loop [] max_score alpha beta = max_score"
| "ab_max_loop (child # rest) max_score alpha beta =
     (let score = child alpha beta;
          max_score = max max_score score
      in if max_score \<ge> beta then max_score
         else ab_max_loop rest max_score (max alpha max_score) beta)"

fun ab_min_loop :: "(('a::linorder) score \<Rightarrow> 'a score \<Rightarrow> 'a score) list \<Rightarrow> 'a score \<Rightarrow> 'a score \<Rightarrow> 'a score \<Rightarrow> 'a score" where
  "ab_min_loop [] min_score alpha beta = min_score"
| "ab_min_loop (child # rest) min_score alpha beta =
     (let score = child alpha beta;
          min_score = min min_score score
      in if min_score \<le> alpha then min_score
         else ab_min_loop rest min_score alpha (min beta min_score))"

function alphabeta_value :: "player \<Rightarrow> player \<Rightarrow> board \<Rightarrow> int \<Rightarrow> int score \<Rightarrow> int score \<Rightarrow> int score"
  and alphabeta_max_value :: "player \<Rightarrow> player \<Rightarrow> board \<Rightarrow> int \<Rightarrow> int score \<Rightarrow> int score \<Rightarrow> int score"
  and alphabeta_min_value :: "player \<Rightarrow> player \<Rightarrow> board \<Rightarrow> int \<Rightarrow> int score \<Rightarrow> int score \<Rightarrow> int score"
where
  "alphabeta_value max_player current_player current_board depth alpha beta =
     (if terminal current_board \<or> depth = 0 then Num (evaluate max_player current_board)
      else if current_player = max_player
        then alphabeta_max_value max_player current_player current_board depth alpha beta
        else alphabeta_min_value max_player current_player current_board depth alpha beta)"
| "alphabeta_max_value max_player current_player current_board depth alpha beta =
     ab_max_loop
       (map (\<lambda>(col, child_board) a b.
               alphabeta_value max_player (opponent current_player) child_board (depth - 1) a b)
            (get_child_boards current_player current_board))
       MinusInf alpha beta"
| "alphabeta_min_value max_player current_player current_board depth alpha beta =
     ab_min_loop
       (map (\<lambda>(col, child_board) a b.
               alphabeta_value max_player (opponent current_player) child_board (depth - 1) a b)
            (get_child_boards current_player current_board))
       PlusInf alpha beta"
  by pat_completeness auto
termination
  by (relation "measure (\<lambda>x. case x of
          Inl (mp, cp, b, d, al, be) \<Rightarrow> 2 * card (empty_cells b) + 1
        | Inr (Inl (mp, cp, b, d, al, be)) \<Rightarrow> 2 * card (empty_cells b)
        | Inr (Inr (mp, cp, b, d, al, be)) \<Rightarrow> 2 * card (empty_cells b))")
     (auto dest: child_fewer_empty)

declare alphabeta_value.simps [simp del]

fun ab_choose_loop :: "(nat \<times> (('a::linorder) score \<Rightarrow> 'a score \<Rightarrow> 'a score)) list \<Rightarrow> 'a score \<Rightarrow> nat option \<Rightarrow> 'a score \<Rightarrow> 'a score \<Rightarrow> 'a score \<times> nat option" where
  "ab_choose_loop [] best_score placement alpha beta = (best_score, placement)"
| "ab_choose_loop ((column, child) # rest) best_score placement alpha beta =
     (let score = child alpha beta in
      if score > best_score
      then ab_choose_loop rest score (Some column) (max alpha score) beta
      else ab_choose_loop rest best_score placement (max alpha best_score) beta)"

definition alphabeta_search :: "player \<Rightarrow> board \<Rightarrow> int \<Rightarrow> int score \<times> nat option" where
  "alphabeta_search player b depth_limit =
     ab_choose_loop
       (map (\<lambda>(col, child_board).
               (col, \<lambda>alpha beta.
                  alphabeta_value player (opponent player) child_board (depth_limit - 1) alpha beta))
            (get_child_boards player b))
       MinusInf None MinusInf PlusInf"

definition alphabeta :: "player \<Rightarrow> board \<Rightarrow> int \<Rightarrow> nat option" where
  "alphabeta player b depth_limit = snd (alphabeta_search player b depth_limit)"



section \<open>Alpha-beta pruning returns what minimax returns\<close>

lemma MinusInf_least [simp]: "MinusInf \<le> (x :: ('a::linorder) score)"
  by (simp add: less_eq_score_def)

lemma PlusInf_greatest [simp]: "(x :: ('a::linorder) score) \<le> PlusInf"
  by (cases x) (simp_all add: less_eq_score_def)

lemma Num_le_Num [simp]: "(Num a \<le> Num b) = (a \<le> (b :: 'a::linorder))"
  by (simp add: less_eq_score_def)

lemma Num_less_Num [simp]: "(Num a < Num b) = (a < (b :: 'a::linorder))"
  by (auto simp: less_score_def less_eq_score_def)

lemma MinusInf_less_Num [simp]: "MinusInf < Num (a :: 'a::linorder)"
  by (simp add: less_score_def less_eq_score_def)

lemma Num_less_PlusInf [simp]: "Num (a :: 'a::linorder) < PlusInf"
  by (simp add: less_score_def less_eq_score_def)

lemma MinusInf_less_PlusInf [simp]: "(MinusInf :: ('a::linorder) score) < PlusInf"
  by (simp add: less_score_def less_eq_score_def)

lemma not_less_MinusInf [simp]: "\<not> (x :: ('a::linorder) score) < MinusInf"
  by (simp add: less_score_def less_eq_score_def)

lemma not_PlusInf_less [simp]: "\<not> PlusInf < (x :: ('a::linorder) score)"
  by (cases x) (simp_all add: less_score_def less_eq_score_def)

definition window_ok :: "('a::linorder) \<Rightarrow> 'a \<Rightarrow> 'a \<Rightarrow> 'a \<Rightarrow> bool" where
  "window_ok alpha beta v r =
     ((r \<le> alpha \<longrightarrow> v \<le> r) \<and> (beta \<le> r \<longrightarrow> r \<le> v) \<and> (alpha < r \<and> r < beta \<longrightarrow> r = v))"

lemma window_ok_refl: "window_ok alpha beta v v"
  by (simp add: window_ok_def)

lemma max_loop_max: "max_loop (v # vs) m = max_loop vs (max m v)"
  by (cases "m < v") (auto simp: max_def)

lemma min_loop_min: "min_loop (v # vs) m = min_loop vs (min m v)"
  by (cases "v < m") (auto simp: min_def)

lemma max_loop_ge: "m \<le> max_loop vs m"
proof (induction vs arbitrary: m)
  case Nil
  show ?case by simp
next
  case (Cons v vs)
  have "m \<le> max m v" by simp
  also have "\<dots> \<le> max_loop vs (max m v)" by (rule Cons.IH)
  finally show ?case by (simp only: max_loop_max)
qed

lemma min_loop_le: "min_loop vs m \<le> m"
proof (induction vs arbitrary: m)
  case Nil
  show ?case by simp
next
  case (Cons v vs)
  have "min_loop vs (min m v) \<le> min m v" by (rule Cons.IH)
  also have "\<dots> \<le> m" by simp
  finally show ?case by (simp only: min_loop_min)
qed

lemma window_max_step:
  assumes "alpha0 < beta" and "ms < beta" and "window_ok alpha0 beta mv ms"
    and "window_ok (max alpha0 ms) beta v r" and "max ms r < beta"
  shows "window_ok alpha0 beta (max mv v) (max ms r)"
proof -
  have r: "r < beta" and ms: "ms < beta" using assms(5) by simp_all
  show ?thesis
  proof (cases "ms \<le> alpha0")
    case True
    then have a: "max alpha0 ms = alpha0" by (auto simp: max_def)
    from True assms(3) have mv: "mv \<le> ms" by (simp add: window_ok_def)
    show ?thesis
    proof (cases "r \<le> alpha0")
      case True
      with assms(4) a have "v \<le> r" by (simp add: window_ok_def)
      with mv True \<open>ms \<le> alpha0\<close> assms(1) r ms show ?thesis
        by (auto simp: window_ok_def max_def)
    next
      case False
      with assms(4) a r have "r = v" by (simp add: window_ok_def)
      with mv False \<open>ms \<le> alpha0\<close> assms(1) r ms show ?thesis
        by (auto simp: window_ok_def max_def)
    qed
  next
    case False
    then have a: "max alpha0 ms = ms" by (auto simp: max_def)
    from False assms(3) ms have mv: "mv = ms" by (simp add: window_ok_def)
    show ?thesis
    proof (cases "r \<le> ms")
      case True
      with assms(4) a have "v \<le> r" by (simp add: window_ok_def)
      with mv True False assms(1) r ms show ?thesis
        by (auto simp: window_ok_def max_def)
    next
      case False
      with assms(4) a r have "r = v" by (simp add: window_ok_def)
      with mv False \<open>\<not> ms \<le> alpha0\<close> assms(1) r ms show ?thesis
        by (auto simp: window_ok_def max_def)
    qed
  qed
qed

lemma window_min_step:
  assumes "alpha < beta0" and "alpha < ms" and "window_ok alpha beta0 mv ms"
    and "window_ok alpha (min beta0 ms) v r" and "alpha < min ms r"
  shows "window_ok alpha beta0 (min mv v) (min ms r)"
proof -
  have r: "alpha < r" and ms: "alpha < ms" using assms(5) by simp_all
  show ?thesis
  proof (cases "beta0 \<le> ms")
    case True
    then have b: "min beta0 ms = beta0" by (auto simp: min_def)
    from True assms(3) have mv: "ms \<le> mv" by (simp add: window_ok_def)
    show ?thesis
    proof (cases "beta0 \<le> r")
      case True
      with assms(4) b have "r \<le> v" by (simp add: window_ok_def)
      with mv True \<open>beta0 \<le> ms\<close> assms(1) r ms show ?thesis
        by (auto simp: window_ok_def min_def)
    next
      case False
      with assms(4) b r have "r = v" by (simp add: window_ok_def)
      with mv False \<open>beta0 \<le> ms\<close> assms(1) r ms show ?thesis
        by (auto simp: window_ok_def min_def)
    qed
  next
    case False
    then have b: "min beta0 ms = ms" by (auto simp: min_def)
    from False assms(3) ms have mv: "mv = ms" by (simp add: window_ok_def)
    show ?thesis
    proof (cases "ms \<le> r")
      case True
      with assms(4) b have "r \<le> v" by (simp add: window_ok_def)
      with mv True False assms(1) r ms show ?thesis
        by (auto simp: window_ok_def min_def)
    next
      case False
      with assms(4) b r have "r = v" by (simp add: window_ok_def)
      with mv False \<open>\<not> beta0 \<le> ms\<close> assms(1) r ms show ?thesis
        by (auto simp: window_ok_def min_def)
    qed
  qed
qed

lemma PlusInf_le_iff [simp]: "(PlusInf \<le> x) = (x = (PlusInf :: ('a::linorder) score))"
  by (cases x) (simp_all add: less_eq_score_def)

lemma le_MinusInf_iff [simp]: "(x \<le> MinusInf) = (x = (MinusInf :: ('a::linorder) score))"
  by (cases x) (simp_all add: less_eq_score_def)

lemma ab_max_loop_window:
  assumes "list_all2 (\<lambda>child v. \<forall>a b. a < b \<longrightarrow> window_ok a b v (child a b)) children vs"
    and "alpha0 < beta" and "ms < beta" and "window_ok alpha0 beta mv ms"
  shows "window_ok alpha0 beta (max_loop vs mv) (ab_max_loop children ms (max alpha0 ms) beta)"
  using assms
proof (induction children vs arbitrary: ms mv rule: list_all2_induct)
  case Nil
  then show ?case by simp
next
  case (Cons child children v vs)
  let ?r = "child (max alpha0 ms) beta"
  have lt: "max alpha0 ms < beta"
    using Cons.prems(1,2) by simp
  have w: "window_ok (max alpha0 ms) beta v ?r"
    using Cons.hyps(1) lt by blast
  show ?case
  proof (cases "beta \<le> max ms ?r")
    case True
    with Cons.prems(2) have br: "beta \<le> ?r"
      by (simp add: le_max_iff_disj not_le [symmetric])
    with Cons.prems(2) have eq: "max ms ?r = ?r"
      by (intro max_absorb2) simp
    from w br have "?r \<le> v"
      by (simp add: window_ok_def)
    also have "v \<le> max mv v" by simp
    also have "\<dots> \<le> max_loop vs (max mv v)" by (rule max_loop_ge)
    finally have "?r \<le> max_loop (v # vs) mv"
      by (simp only: max_loop_max)
    with br Cons.prems(1) have "window_ok alpha0 beta (max_loop (v # vs) mv) ?r"
      by (auto simp: window_ok_def)
    with True eq show ?thesis
      by (simp add: Let_def)
  next
    case False
    then have lt': "max ms ?r < beta" by (simp add: not_le)
    have step: "window_ok alpha0 beta (max mv v) (max ms ?r)"
      by (rule window_max_step [OF Cons.prems(1) Cons.prems(2) Cons.prems(3) w lt'])
    have a: "max (max alpha0 ms) (max ms ?r) = max alpha0 (max ms ?r)"
      by (simp add: max.assoc [symmetric])
    have "window_ok alpha0 beta (max_loop vs (max mv v))
            (ab_max_loop children (max ms ?r) (max alpha0 (max ms ?r)) beta)"
      by (rule Cons.IH [OF Cons.prems(1) lt' step])
    with False a show ?thesis
      by (simp add: Let_def max_loop_max del: max_loop.simps)
  qed
qed

lemma ab_min_loop_window:
  assumes "list_all2 (\<lambda>child v. \<forall>a b. a < b \<longrightarrow> window_ok a b v (child a b)) children vs"
    and "alpha < beta0" and "alpha < ms" and "window_ok alpha beta0 mv ms"
  shows "window_ok alpha beta0 (min_loop vs mv) (ab_min_loop children ms alpha (min beta0 ms))"
  using assms
proof (induction children vs arbitrary: ms mv rule: list_all2_induct)
  case Nil
  then show ?case by simp
next
  case (Cons child children v vs)
  let ?r = "child alpha (min beta0 ms)"
  have lt: "alpha < min beta0 ms"
    using Cons.prems(1,2) by simp
  have w: "window_ok alpha (min beta0 ms) v ?r"
    using Cons.hyps(1) lt by blast
  show ?case
  proof (cases "min ms ?r \<le> alpha")
    case True
    with Cons.prems(2) have br: "?r \<le> alpha"
      by (simp add: min_le_iff_disj not_le [symmetric])
    with Cons.prems(2) have eq: "min ms ?r = ?r"
      by (intro min_absorb2) simp
    have "min_loop (v # vs) mv = min_loop vs (min mv v)"
      by (simp only: min_loop_min)
    also have "\<dots> \<le> min mv v" by (rule min_loop_le)
    also have "\<dots> \<le> v" by simp
    also from w br have "v \<le> ?r"
      by (simp add: window_ok_def)
    finally have "min_loop (v # vs) mv \<le> ?r" .
    with br Cons.prems(1) have "window_ok alpha beta0 (min_loop (v # vs) mv) ?r"
      by (auto simp: window_ok_def)
    with True eq show ?thesis
      by (simp add: Let_def)
  next
    case False
    then have lt': "alpha < min ms ?r" by (simp add: not_le)
    have step: "window_ok alpha beta0 (min mv v) (min ms ?r)"
      by (rule window_min_step [OF Cons.prems(1) Cons.prems(2) Cons.prems(3) w lt'])
    have a: "min (min beta0 ms) (min ms ?r) = min beta0 (min ms ?r)"
      by (simp add: min.assoc [symmetric])
    have "window_ok alpha beta0 (min_loop vs (min mv v))
            (ab_min_loop children (min ms ?r) alpha (min beta0 (min ms ?r)))"
      by (rule Cons.IH [OF Cons.prems(1) lt' step])
    with False a show ?thesis
      by (simp add: Let_def min_loop_min del: min_loop.simps)
  qed
qed

lemma max_MinusInf [simp]: "max x MinusInf = (x :: ('a::linorder) score)"
  by (simp add: max_absorb1)

lemma min_PlusInf [simp]: "min x PlusInf = (x :: ('a::linorder) score)"
  by (simp add: min_absorb1)

lemma alphabeta_value_window:
  "alpha < beta \<Longrightarrow>
   window_ok alpha beta (minimax_value mp cp b d) (alphabeta_value mp cp b d alpha beta)"
proof (induction "card (empty_cells b)" arbitrary: b cp d alpha beta rule: less_induct)
  case less
  let ?children = "get_child_boards cp b"
  let ?thunks = "map (\<lambda>(col, child_board) a b.
                    alphabeta_value mp (opponent cp) child_board (d - 1) a b) ?children"
  let ?vs = "map (\<lambda>(col, child_board).
                    minimax_value mp (opponent cp) child_board (d - 1)) ?children"
  have IH: "list_all2 (\<lambda>child v. \<forall>a b. a < b \<longrightarrow> window_ok a b v (child a b)) ?thunks ?vs"
    unfolding list_all2_map1 list_all2_map2
  proof (rule list_all2_all_nthI [OF refl], intro allI impI)
    fix n a bt
    assume n: "n < length ?children" and ab: "a < (bt :: int score)"
    obtain c cb where ccb: "?children ! n = (c, cb)"
      by (cases "?children ! n")
    with n have "(c, cb) \<in> set ?children"
      by (metis nth_mem)
    then have "card (empty_cells cb) < card (empty_cells b)"
      by (rule child_fewer_empty)
    from less.hyps [OF this ab]
    show "window_ok a bt
            ((\<lambda>(col, child_board).
                 minimax_value mp (opponent cp) child_board (d - 1)) (?children ! n))
            ((\<lambda>(col, child_board) a b.
                 alphabeta_value mp (opponent cp) child_board (d - 1) a b) (?children ! n) a bt)"
      by (simp add: ccb)
  qed
  show ?case
  proof (cases "terminal b \<or> d = 0")
    case True
    then have "minimax_value mp cp b d = Num (evaluate mp b)"
      and "alphabeta_value mp cp b d alpha beta = Num (evaluate mp b)"
      by (simp_all add: minimax_value.simps alphabeta_value.simps)
    then show ?thesis by (simp add: window_ok_refl)
  next
    case False
    show ?thesis
    proof (cases "cp = mp")
      case True
      have "window_ok alpha beta (max_loop ?vs MinusInf)
              (ab_max_loop ?thunks MinusInf (max alpha MinusInf) beta)"
      proof (rule ab_max_loop_window [OF IH less.prems])
        show "MinusInf < beta"
          using less.prems by (cases beta) (auto simp: less_score_def less_eq_score_def)
        show "window_ok alpha beta MinusInf (MinusInf :: int score)"
          by (rule window_ok_refl)
      qed
      moreover have "minimax_value mp cp b d = max_loop ?vs MinusInf"
        using False True by (subst minimax_value.simps) simp
      moreover have "alphabeta_value mp cp b d alpha beta = ab_max_loop ?thunks MinusInf alpha beta"
        using False True by (subst alphabeta_value.simps) simp
      ultimately show ?thesis by simp
    next
      case cp: False
      have "window_ok alpha beta (min_loop ?vs PlusInf)
              (ab_min_loop ?thunks PlusInf alpha (min beta PlusInf))"
      proof (rule ab_min_loop_window [OF IH less.prems])
        show "alpha < PlusInf"
          using less.prems by (cases alpha; cases beta) (auto simp: less_score_def less_eq_score_def)
        show "window_ok alpha beta PlusInf (PlusInf :: int score)"
          by (rule window_ok_refl)
      qed
      moreover have "minimax_value mp cp b d = min_loop ?vs PlusInf"
        using False cp by (subst minimax_value.simps) simp
      moreover have "alphabeta_value mp cp b d alpha beta = ab_min_loop ?thunks PlusInf alpha beta"
        using False cp by (subst alphabeta_value.simps) simp
      ultimately show ?thesis by simp
    qed
  qed
qed

lemma ab_choose_loop_eq:
  assumes "list_all2 (\<lambda>(c, child) (c', v). c = c' \<and> (\<forall>a b. a < b \<longrightarrow> window_ok a b v (child a b)))
             children vs"
  shows "ab_choose_loop children best placement best PlusInf = choose_loop vs best placement"
  using assms
proof (induction children vs arbitrary: best placement rule: list_all2_induct)
  case Nil
  show ?case by simp
next
  case (Cons x children y vs)
  obtain c child where x: "x = (c, child)" by (cases x)
  obtain c' v where y: "y = (c', v)" by (cases y)
  from Cons.hyps(1) have c: "c' = c"
    and w: "\<And>a b. a < b \<Longrightarrow> window_ok a b v (child a b)"
    by (auto simp: x y)
  let ?r = "child best PlusInf"
  have agree: "(best < ?r) = (best < v) \<and> (best < ?r \<longrightarrow> ?r = v)"
  proof (cases "best = PlusInf")
    case True
    then show ?thesis by simp
  next
    case False
    then have "best < PlusInf"
      by (cases best) simp_all
    from w [OF this] show ?thesis
      by (cases "?r = PlusInf") (auto simp: window_ok_def not_less dest: antisym)
  qed
  show ?case
  proof (cases "best < v")
    case True
    with agree have r: "best < ?r" "?r = v" by simp_all
    from True have "max best v = v" by (intro max_absorb2) simp
    with True r Cons.IH [of v "Some c"] show ?thesis
      by (simp add: x y c Let_def)
  next
    case False
    with agree have r: "\<not> best < ?r" by simp
    with False Cons.IH [of best placement] show ?thesis
      by (simp add: x y c Let_def)
  qed
qed

lemma alphabeta_search_minimax_search:
  "alphabeta_search p b d = minimax_search p b d"
proof -
  let ?children = "get_child_boards p b"
  have "list_all2 (\<lambda>(c, child) (c', v). c = c' \<and> (\<forall>a b. a < b \<longrightarrow> window_ok a b v (child a b)))
          (map (\<lambda>(col, child_board).
                  (col, \<lambda>alpha beta. alphabeta_value p (opponent p) child_board (d - 1) alpha beta))
               ?children)
          (map (\<lambda>(col, child_board).
                  (col, minimax_value p (opponent p) child_board (d - 1))) ?children)"
    unfolding list_all2_map1 list_all2_map2
    by (rule list_all2_all_nthI [OF refl]) (auto simp: alphabeta_value_window split: prod.splits)
  from ab_choose_loop_eq [OF this, of MinusInf None]
  show ?thesis
    by (simp add: alphabeta_search_def minimax_search_def)
qed

text \<open>
  C1. For every board, player and depth limit, \<open>alphabeta\<close> returns the column that
  \<open>minimax\<close> returns, and the best score of its top-level loop is the best score of the
  top-level loop of \<open>minimax\<close>.
\<close>

theorem alphabeta_equals_minimax:
  "alphabeta p b d = minimax p b d \<and>
   fst (alphabeta_search p b d) = fst (minimax_search p b d)"
  by (simp add: alphabeta_def minimax_def alphabeta_search_minimax_search)

section \<open>A completed four-in-a-row\<close>

text \<open>
  A player has a four-in-a-row when one of the segments scanned by the evaluator holds
  four discs of that player; a segment is free of a player when it is valid and holds no
  disc of that player.
\<close>

definition has_four :: "player \<Rightarrow> board \<Rightarrow> bool" where
  "has_four p b = (replicate 4 (Some (Disc p)) \<in> set (seg b))"

definition free_of :: "player \<Rightarrow> slot option list \<Rightarrow> bool" where
  "free_of p s = (valid_segment s \<and> Some (Disc p) \<notin> set s)"

lemma weights_nonneg: "n < 5 \<Longrightarrow> 0 \<le> weights ! n"
proof -
  assume "n < 5"
  then consider "n = 0" | "n = 1" | "n = 2" | "n = 3" | "n = 4"
    by linarith
  then show ?thesis
    by cases (simp_all add: weights_def)
qed

lemma weights_le_16: "n < 4 \<Longrightarrow> weights ! n \<le> 16"
proof -
  assume "n < 4"
  then consider "n = 0" | "n = 1" | "n = 2" | "n = 3"
    by linarith
  then show ?thesis
    by cases (simp_all add: weights_def)
qed

lemma gain_nonneg:
  assumes "length s \<le> 4"
  shows "0 \<le> gain p a s"
proof -
  have "count_list s (Some (Disc p)) < 5"
    using count_list_le_length [of s "Some (Disc p)"] assms by linarith
  then show ?thesis
    by (simp add: gain_def weights_nonneg)
qed

lemma gain_four: "gain p (opponent p) (replicate 4 (Some (Disc p))) = 1000"
  using opponent_neq [of p]
  by (simp add: gain_def valid_segment_def invalid_slot_def weights_def eval_nat_numeral)

lemma count_list_full:
  "count_list s x = length s \<Longrightarrow> s = replicate (length s) x"
proof (induction s)
  case Nil
  show ?case by simp
next
  case (Cons y s)
  have le: "count_list s x \<le> length s"
    by (rule count_list_le_length)
  show ?case
  proof (cases "y = x")
    case True
    with Cons show ?thesis by simp
  next
    case False
    with Cons.prems le show ?thesis by simp
  qed
qed

lemma gain_le_16:
  assumes "length s \<le> 4" and "s \<noteq> replicate 4 (Some (Disc a))"
  shows "gain a p s \<le> (if free_of p s then 16 else 0)"
proof -
  let ?n = "count_list s (Some (Disc a))"
  have le: "?n \<le> length s"
    by (rule count_list_le_length)
  have "?n \<noteq> 4"
  proof
    assume n: "?n = 4"
    with le assms(1) have "length s = 4" by linarith
    with n count_list_full [of s "Some (Disc a)"] have "s = replicate 4 (Some (Disc a))"
      by simp
    with assms(2) show False by simp
  qed
  with le assms(1) have "?n < 4" by linarith
  then have "weights ! ?n \<le> 16"
    by (rule weights_le_16)
  then show ?thesis
    by (simp add: gain_def free_of_def)
qed

lemma member_le_sum_list_int:
  assumes "x \<in> set xs" and "\<forall>y \<in> set xs. 0 \<le> f y"
  shows "f x \<le> sum_list (map f xs :: int list)"
  using assms
proof (induction xs)
  case Nil
  then show ?case by simp
next
  case (Cons y ys)
  have nonneg: "0 \<le> sum_list (map f ys)"
    using Cons.prems(2) by (intro sum_list_nonneg) auto
  show ?case
  proof (cases "x = y")
    case True
    with nonneg show ?thesis by simp
  next
    case False
    with Cons.prems have "x \<in> set ys" by simp
    with Cons.IH Cons.prems(2) have "f x \<le> sum_list (map f ys)" by simp
    moreover have "0 \<le> f y" using Cons.prems(2) by simp
    ultimately show ?thesis by simp
  qed
qed

lemma sum_gain_le:
  assumes "\<forall>s \<in> set ss. length s \<le> 4 \<and> s \<noteq> replicate 4 (Some (Disc a))"
  shows "sum_list (map (gain a p) ss) \<le> 16 * int (length (filter (free_of p) ss))"
  using assms
proof (induction ss)
  case Nil
  show ?case by simp
next
  case (Cons s ss)
  have "gain a p s \<le> (if free_of p s then 16 else 0)"
    using Cons.prems by (intro gain_le_16) simp_all
  moreover have "sum_list (map (gain a p) ss) \<le> 16 * int (length (filter (free_of p) ss))"
    using Cons by simp
  ultimately show ?case by (simp split: if_splits)
qed

lemma evaluate_four_bound:
  assumes "has_four p b" and "\<not> has_four (opponent p) b"
  shows "1000 - 16 * int (length (filter (free_of p) (seg b))) \<le> evaluate p b"
proof -
  let ?a = "opponent p"
  have len: "\<forall>s \<in> set (seg b). length s \<le> 4"
    using seg_length by blast
  have "gain p ?a (replicate 4 (Some (Disc p))) \<le> sum_list (map (gain p ?a) (seg b))"
    using assms(1) len by (intro member_le_sum_list_int) (auto simp: has_four_def gain_nonneg)
  then have reward: "1000 \<le> sum_list (map (gain p ?a) (seg b))"
    by (simp add: gain_four)
  have "\<forall>s \<in> set (seg b). length s \<le> 4 \<and> s \<noteq> replicate 4 (Some (Disc ?a))"
    using assms(2) len by (auto simp: has_four_def)
  then have "sum_list (map (gain ?a p) (seg b)) \<le> 16 * int (length (filter (free_of p) (seg b)))"
    by (rule sum_gain_le)
  with reward show ?thesis
    by (simp add: evaluate_gain)
qed

lemma free_le_valid:
  "length (filter (free_of p) ss) \<le> length (filter valid_segment ss)"
  by (induction ss) (auto simp: free_of_def)

definition wide_board :: board where
  "wide_board = \<lparr>rows = 1, cols = 70,
     cells = (\<lambda>r c. if c < 4 then Disc PLAYER1
                     else if c mod 4 = 3 then EMPTY_SLOT else Disc PLAYER2)\<rparr>"



section \<open>Expectimax\<close>

text \<open>
  The scores of expectimax are Python floats. They are modelled as exact rationals: the
  arithmetic of \<open>prob * value\<close> and of \<open>total_value += ...\<close> is exact, rounding is not
  modelled. \<open>prob * value\<close> and the sum are extended to \<open>-math.inf\<close>, the only infinity
  that expectimax introduces (lemma \<open>expectimax_value_not_PlusInf\<close>); the sum of the two
  opposite infinities, a NaN in Python, is therefore never evaluated. An empty successor
  list at an expectation node raises \<open>ZeroDivisionError\<close> in \<open>1 / len(child_boards)\<close>, and
  an exception raised under a successor ends the loop that called it.
\<close>

definition score_mult :: "rat \<Rightarrow> rat score \<Rightarrow> rat score" where
  "score_mult prob v =
     (case v of MinusInf \<Rightarrow> MinusInf | Num x \<Rightarrow> Num (prob * x) | PlusInf \<Rightarrow> PlusInf)"

definition score_add :: "rat score \<Rightarrow> rat score \<Rightarrow> rat score" where
  "score_add x y =
     (case x of
        Num a \<Rightarrow> (case y of Num b \<Rightarrow> Num (a + b) | MinusInf \<Rightarrow> MinusInf | PlusInf \<Rightarrow> PlusInf)
      | MinusInf \<Rightarrow> MinusInf
      | PlusInf \<Rightarrow> (case y of MinusInf \<Rightarrow> MinusInf | _ \<Rightarrow> PlusInf))"

fun emax_loop :: "(error + rat score) list \<Rightarrow> rat score \<Rightarrow> error + rat score" where
  "emax_loop [] max_score = Inr max_score"
| "emax_loop (Inl e # rest) max_score = Inl e"
| "emax_loop (Inr score # rest) max_score = emax_loop rest (max max_score score)"

fun expected_loop :: "(error + rat score) list \<Rightarrow> rat \<Rightarrow> rat score \<Rightarrow> error + rat score" where
  "expected_loop [] prob total_value = Inr total_value"
| "expected_loop (Inl e # rest) prob total_value = Inl e"
| "expected_loop (Inr v # rest) prob total_value =
     expected_loop rest prob (score_add total_value (score_mult prob v))"

function expectimax_value :: "player \<Rightarrow> player \<Rightarrow> board \<Rightarrow> int \<Rightarrow> error + rat score"
  and expectimax_max_value :: "player \<Rightarrow> player \<Rightarrow> board \<Rightarrow> int \<Rightarrow> error + rat score"
  and expectimax_expected_value :: "player \<Rightarrow> player \<Rightarrow> board \<Rightarrow> int \<Rightarrow> error + rat score"
where
  "expectimax_value max_player current_player current_board depth =
     (if terminal current_board \<or> depth = 0
      then Inr (Num (of_int (evaluate max_player current_board)))
      else if current_player = max_player
        then expectimax_max_value max_player current_player current_board depth
        else expectimax_expected_value max_player current_player current_board depth)"
| "expectimax_max_value max_player current_player current_board depth =
     emax_loop
       (map (\<lambda>(col, child_board).
               expectimax_value max_player (opponent current_player) child_board (depth - 1))
            (get_child_boards current_player current_board))
       MinusInf"
| "expectimax_expected_value max_player current_player current_board depth =
     (let child_boards = get_child_boards current_player current_board in
      if length child_boards = 0 then Inl ZeroDivisionError
      else
        let prob = 1 / of_nat (length child_boards) in
        expected_loop
          (map (\<lambda>(col, child_board).
                  expectimax_value max_player (opponent current_player) child_board (depth - 1))
               child_boards)
          prob (Num 0))"
  by pat_completeness auto
termination
  by (relation "measure (\<lambda>x. case x of
          Inl (mp, cp, b, d) \<Rightarrow> 2 * card (empty_cells b) + 1
        | Inr (Inl (mp, cp, b, d)) \<Rightarrow> 2 * card (empty_cells b)
        | Inr (Inr (mp, cp, b, d)) \<Rightarrow> 2 * card (empty_cells b))")
     (auto dest: child_fewer_empty)

declare expectimax_value.simps [simp del]

fun echoose_loop :: "(nat \<times> (error + rat score)) list \<Rightarrow> rat score \<Rightarrow> nat option \<Rightarrow> error + rat score \<times> nat option" where
  "echoose_loop [] best_score placement = Inr (best_score, placement)"
| "echoose_loop ((column, Inl e) # rest) best_score placement = Inl e"
| "echoose_loop ((column, Inr score) # rest) best_score placement =
     (if score > best_score then echoose_loop rest score (Some column)
      else echoose_loop rest best_score placement)"

definition expectimax_search :: "player \<Rightarrow> board \<Rightarrow> int \<Rightarrow> error + rat score \<times> nat option" where
  "expectimax_search player b depth_limit =
     echoose_loop
       (map (\<lambda>(col, child_board).
               (col, expectimax_value player (opponent player) child_board (depth_limit - 1)))
            (get_child_boards player b))
       MinusInf None"

definition expectimax :: "player \<Rightarrow> board \<Rightarrow> int \<Rightarrow> error + nat option" where
  "expectimax player b depth_limit =
     (case expectimax_search player b depth_limit of
        Inl e \<Rightarrow> Inl e
      | Inr (best_score, placement) \<Rightarrow> Inr placement)"

text \<open>
  The unconstrained best case of section 8 of the specification, in the words of the
  specification: the value of a position when every node, also the adversary's, takes
  the maximum over its successors. It is not part of the source; the bound on the
  expectimax score is stated against it.
\<close>

function best_case_value :: "player \<Rightarrow> player \<Rightarrow> board \<Rightarrow> int \<Rightarrow> int score" where
  "best_case_value max_player current_player current_board depth =
     (if terminal current_board \<or> depth = 0 then Num (evaluate max_player current_board)
      else max_loop
             (map (\<lambda>(col, child_board).
                     best_case_value max_player (opponent current_player) child_board (depth - 1))
                  (get_child_boards current_player current_board))
             MinusInf)"
  by pat_completeness auto
termination
  by (relation "measure (\<lambda>(mp, cp, b, d). card (empty_cells b))")
     (auto dest: child_fewer_empty)

declare best_case_value.simps [simp del]

text \<open>
  Modelled from the spec: the gravity invariant of section 3, an occupied cell has only
  occupied cells below it in its column.
\<close>

definition gravity :: "board \<Rightarrow> bool" where
  "gravity b =
     list_all (\<lambda>c. list_all (\<lambda>r.
        cells b r c \<noteq> EMPTY_SLOT \<longrightarrow> list_all (\<lambda>r'. cells b r' c \<noteq> EMPTY_SLOT) [0..<r])
        [0..<rows b]) [0..<cols b]"


section \<open>Boards that respect gravity\<close>

lemma gravity_iff:
  "gravity b \<longleftrightarrow>
     (\<forall>c < cols b. \<forall>r < rows b. cells b r c \<noteq> EMPTY_SLOT \<longrightarrow>
        (\<forall>r' < r. cells b r' c \<noteq> EMPTY_SLOT))"
  by (simp add: gravity_def list_all_iff Ball_def)

lemma gravity_place:
  assumes "gravity b" and "place p c b = Inr b'"
  shows "gravity b'"
proof -
  from assms(2) obtain r where r: "lowest_empty b c = Some r"
    and b': "b' = b\<lparr>cells := (cells b)(r := (cells b r)(c := Disc p))\<rparr>"
    by (auto simp: place_def split: option.splits)
  have below: "\<And>r'. r' < r \<Longrightarrow> cells b r' c \<noteq> EMPTY_SLOT"
    by (rule lowest_empty_Some(3) [OF r])
  have cb': "\<And>x y. cells b' x y = (if x = r \<and> y = c then Disc p else cells b x y)"
    by (simp add: b')
  have dims: "rows b' = rows b" "cols b' = cols b"
    by (simp_all add: b')
  have r_empty: "cells b r c = EMPTY_SLOT"
    by (rule lowest_empty_Some(2) [OF r])
  show ?thesis
    unfolding gravity_iff
  proof (intro allI impI)
    fix c0 r0 r1
    assume c0: "c0 < cols b'" and r0: "r0 < rows b'"
      and occ: "cells b' r0 c0 \<noteq> EMPTY_SLOT" and r1: "r1 < r0"
    show "cells b' r1 c0 \<noteq> EMPTY_SLOT"
    proof (cases "c0 = c")
      case False
      with occ have "cells b r0 c0 \<noteq> EMPTY_SLOT"
        by (simp add: cb' dims split: if_splits)
      with assms(1) c0 r0 r1 have "cells b r1 c0 \<noteq> EMPTY_SLOT"
        unfolding gravity_iff by (simp add: cb' dims split: if_splits)
      with False show ?thesis by (simp add: cb' dims split: if_splits)
    next
      case True
      show ?thesis
      proof (cases "r0 = r")
        case True
        with r1 below have "cells b r1 c \<noteq> EMPTY_SLOT" by simp
        with \<open>c0 = c\<close> show ?thesis by (simp add: cb' dims split: if_splits)
      next
        case False
        with occ \<open>c0 = c\<close> have "cells b r0 c \<noteq> EMPTY_SLOT"
          by (simp add: cb' dims split: if_splits)
        with assms(1) c0 r0 r1 \<open>c0 = c\<close> have "cells b r1 c \<noteq> EMPTY_SLOT"
          unfolding gravity_iff by (simp add: cb' dims split: if_splits)
        with \<open>c0 = c\<close> show ?thesis by (simp add: cb' dims split: if_splits)
      qed
    qed
  qed
qed

lemma gravity_child:
  assumes "gravity b" and "(c, cb) \<in> set (get_child_boards p b)"
  shows "gravity cb"
  using assms gravity_place by (auto simp: in_get_child_boards)

lemma full_column_not_placeable:
  assumes "gravity b" and "c < cols b" and "r < rows b" and "cells b r c = EMPTY_SLOT"
  shows "placeable b c"
proof -
  have "cells b (rows b - 1) c = EMPTY_SLOT"
  proof (rule ccontr)
    assume top: "cells b (rows b - 1) c \<noteq> EMPTY_SLOT"
    with assms(4) have "r \<noteq> rows b - 1" by auto
    with assms(3) have "r < rows b - 1" by simp
    moreover have "rows b - 1 < rows b" using assms(3) by simp
    ultimately have "cells b r c \<noteq> EMPTY_SLOT"
      using assms(1,2) top unfolding gravity_iff by blast
    with assms(4) show False by simp
  qed
  with assms(2,3) show ?thesis by (simp add: placeable_def)
qed

lemma not_terminal_placeable:
  assumes "gravity b" and "\<not> terminal b"
  shows "\<exists>c. placeable b c"
proof -
  from assms(2) have "\<not> all_occupied b"
    by (auto simp: terminal_def has_draw_def)
  then obtain r c where "r < rows b" "c < cols b" "cells b r c = EMPTY_SLOT"
    by (auto simp: all_occupied_def list_all_iff)
  with assms(1) show ?thesis
    by (blast intro: full_column_not_placeable)
qed

lemma placeable_iff_child:
  "placeable b c \<longleftrightarrow> (\<exists>cb. (c, cb) \<in> set (get_child_boards p b))"
  using place_placeable [of b c p] by (auto simp: in_get_child_boards)


lemma no_placeable_iff_no_children:
  "get_child_boards p b = [] \<longleftrightarrow> (\<forall>c < cols b. \<not> placeable b c)"
proof
  assume "get_child_boards p b = []"
  then show "\<forall>c < cols b. \<not> placeable b c"
    using placeable_iff_child [of b _ p] by auto
next
  assume none: "\<forall>c < cols b. \<not> placeable b c"
  show "get_child_boards p b = []"
  proof (rule ccontr)
    assume "get_child_boards p b \<noteq> []"
    then obtain c cb where "(c, cb) \<in> set (get_child_boards p b)"
      by (cases "get_child_boards p b") auto
    then have "placeable b c" by (simp add: in_get_child_boards)
    with none show False by (auto simp: placeable_def)
  qed
qed


text \<open>
  The boards that a search started on \<open>b\<close> can visit: \<open>b\<close> and the successors of a
  visited board. \<open>terminal_detects_full\<close> says that \<open>terminal()\<close> holds on every such
  board that has no placeable column.
\<close>

inductive reachable :: "board \<Rightarrow> board \<Rightarrow> bool" for b :: board where
  start: "reachable b b"
| step: "reachable b b' \<Longrightarrow> (c, b'') \<in> set (get_child_boards p b') \<Longrightarrow> reachable b b''"

definition terminal_detects_full :: "board \<Rightarrow> bool" where
  "terminal_detects_full b =
     (\<forall>b'. reachable b b' \<longrightarrow> (\<forall>c < cols b'. \<not> placeable b' c) \<longrightarrow> terminal b')"

lemma reachable_child:
  assumes "(c, cb) \<in> set (get_child_boards p b)" and "reachable cb b'"
  shows "reachable b b'"
  using assms(2)
proof (induction rule: reachable.induct)
  case (start)
  show ?case
    by (rule reachable.step [OF reachable.start assms(1)])
next
  case (step b' c' b'' q)
  from step.IH step.hyps(2) show ?case
    by (rule reachable.step)
qed

lemma terminal_detects_full_child:
  assumes "terminal_detects_full b" and "(c, cb) \<in> set (get_child_boards p b)"
  shows "terminal_detects_full cb"
  using assms reachable_child unfolding terminal_detects_full_def by blast

lemma terminal_detects_full_children:
  assumes "terminal_detects_full b" and "\<not> terminal b"
  shows "get_child_boards p b \<noteq> []"
proof
  assume "get_child_boards p b = []"
  then have "\<forall>c < cols b. \<not> placeable b c"
    by (simp add: no_placeable_iff_no_children)
  with assms(1) reachable.start have "terminal b"
    unfolding terminal_detects_full_def by blast
  with assms(2) show False by simp
qed

lemma gravity_reachable:
  assumes "reachable b b'" and "gravity b"
  shows "gravity b'"
  using assms by (induction rule: reachable.induct) (auto intro: gravity_child)

lemma gravity_terminal_detects_full:
  assumes "gravity b"
  shows "terminal_detects_full b"
  unfolding terminal_detects_full_def
proof (intro allI impI)
  fix b'
  assume r: "reachable b b'" and none: "\<forall>c < cols b'. \<not> placeable b' c"
  have "gravity b'" by (rule gravity_reachable [OF r assms])
  show "terminal b'"
  proof (rule ccontr)
    assume "\<not> terminal b'"
    with \<open>gravity b'\<close> obtain c where "placeable b' c"
      using not_terminal_placeable by blast
    with none show False by (auto simp: placeable_def)
  qed
qed

text \<open>The loops on numbers.\<close>

lemma max_Num: "max (Num a) (Num b) = Num (max a (b :: 'a::linorder))"
  by (simp add: max_def)

lemma min_Num: "min (Num a) (Num b) = Num (min a (b :: 'a::linorder))"
  by (simp add: min_def)

lemma max_loop_Num:
  "\<exists>r. max_loop (map Num xs) (Num m) = Num r \<and> r \<in> set (m # xs) \<and> (\<forall>x \<in> set (m # xs). x \<le> r)"
proof (induction xs arbitrary: m)
  case Nil
  show ?case by simp
next
  case (Cons x xs)
  from Cons [of "max m x"] obtain r where
    r: "max_loop (map Num xs) (Num (max m x)) = Num r" "r \<in> set (max m x # xs)"
       "\<forall>y \<in> set (max m x # xs). y \<le> r"
    by blast
  have "max_loop (map Num (x # xs)) (Num m) = max_loop (map Num xs) (Num (max m x))"
    by (simp add: max_loop_max max_Num del: max_loop.simps)
  moreover have "r \<in> set (m # x # xs)"
    using r(2) by (auto simp: max_def split: if_splits)
  moreover have "\<forall>y \<in> set (m # x # xs). y \<le> r"
    using r(3) by auto
  ultimately show ?case using r(1) by auto
qed

lemma min_loop_Num:
  "\<exists>r. min_loop (map Num xs) (Num m) = Num r \<and> r \<in> set (m # xs) \<and> (\<forall>x \<in> set (m # xs). r \<le> x)"
proof (induction xs arbitrary: m)
  case Nil
  show ?case by simp
next
  case (Cons x xs)
  from Cons [of "min m x"] obtain r where
    r: "min_loop (map Num xs) (Num (min m x)) = Num r" "r \<in> set (min m x # xs)"
       "\<forall>y \<in> set (min m x # xs). r \<le> y"
    by blast
  have "min_loop (map Num (x # xs)) (Num m) = min_loop (map Num xs) (Num (min m x))"
    by (simp add: min_loop_min min_Num del: min_loop.simps)
  moreover have "r \<in> set (m # x # xs)"
    using r(2) by (auto simp: min_def split: if_splits)
  moreover have "\<forall>y \<in> set (m # x # xs). r \<le> y"
    using r(3) by auto
  ultimately show ?case using r(1) by auto
qed

lemma max_loop_MinusInf:
  assumes "xs \<noteq> []"
  shows "\<exists>r. max_loop (map Num xs) MinusInf = Num r \<and> r \<in> set xs \<and> (\<forall>x \<in> set xs. x \<le> r)"
proof -
  from assms obtain x xs' where xs: "xs = x # xs'" by (cases xs) auto
  have "max_loop (map Num xs) MinusInf = max_loop (map Num xs') (Num x)"
    by (simp add: xs)
  with max_loop_Num [of xs' x] show ?thesis by (simp add: xs)
qed

lemma min_loop_PlusInf:
  assumes "xs \<noteq> []"
  shows "\<exists>r. min_loop (map Num xs) PlusInf = Num r \<and> r \<in> set xs \<and> (\<forall>x \<in> set xs. r \<le> x)"
proof -
  from assms obtain x xs' where xs: "xs = x # xs'" by (cases xs) auto
  have "min_loop (map Num xs) PlusInf = min_loop (map Num xs') (Num x)"
    by (simp add: xs)
  with min_loop_Num [of xs' x] show ?thesis by (simp add: xs)
qed

lemma emax_loop_Inr: "emax_loop (map Inr ss) m = Inr (max_loop ss m)"
proof (induction ss arbitrary: m)
  case Nil
  show ?case by simp
next
  case (Cons s ss)
  have "max m s = (if m < s then s else m)"
    by (auto simp: max_def)
  with Cons show ?case by simp
qed

lemma expected_loop_Num:
  "expected_loop (map (\<lambda>v. Inr (Num v)) vs) prob (Num t) =
     Inr (Num (t + sum_list (map (\<lambda>v. prob * v) vs)))"
  by (induction vs arbitrary: t) (simp_all add: score_add_def score_mult_def add.assoc)

lemma echoose_loop_Inr:
  "echoose_loop (map (\<lambda>(c, s). (c, Inr s)) xs) best placement = Inr (choose_loop xs best placement)"
  by (induction xs best placement rule: choose_loop.induct) simp_all

lemma sum_list_scale: "sum_list (map (\<lambda>v. c * v) vs) = c * sum_list (vs :: rat list)"
  by (induction vs) (simp_all add: algebra_simps)

lemma weighted_average_bounds:
  fixes vs :: "rat list"
  assumes "vs \<noteq> []" and "\<forall>v \<in> set vs. lo \<le> v \<and> v \<le> hi"
  shows "lo \<le> sum_list (map (\<lambda>v. (1 / of_nat (length vs)) * v) vs)"
    and "sum_list (map (\<lambda>v. (1 / of_nat (length vs)) * v) vs) \<le> hi"
proof -
  let ?n = "of_nat (length vs) :: rat"
  have n: "0 < ?n" using assms(1) by simp
  have eq: "sum_list (map (\<lambda>v. (1 / ?n) * v) vs) = sum_list vs / ?n"
    by (simp only: sum_list_scale) simp
  have "sum_list (map (\<lambda>v. lo) vs) \<le> sum_list (map (\<lambda>v. v) vs)"
    using assms(2) by (intro sum_list_mono) simp
  then have lo: "?n * lo \<le> sum_list vs"
    by (simp add: sum_list_replicate map_replicate_const)
  have "sum_list (map (\<lambda>v. v) vs) \<le> sum_list (map (\<lambda>v. hi) vs)"
    using assms(2) by (intro sum_list_mono) simp
  then have hi: "sum_list vs \<le> ?n * hi"
    by (simp add: sum_list_replicate map_replicate_const)
  from lo n show "lo \<le> sum_list (map (\<lambda>v. (1 / ?n) * v) vs)"
    unfolding eq by (simp add: pos_le_divide_eq mult.commute)
  from hi n show "sum_list (map (\<lambda>v. (1 / ?n) * v) vs) \<le> hi"
    unfolding eq by (simp add: pos_divide_le_eq mult.commute)
qed

lemma value_bounds:
  assumes "terminal_detects_full b"
  shows "\<exists>m e M. minimax_value mp cp b d = Num m \<and> expectimax_value mp cp b d = Inr (Num e) \<and>
           best_case_value mp cp b d = Num M \<and> of_int m \<le> e \<and> e \<le> of_int M"
  using assms
proof (induction "card (empty_cells b)" arbitrary: b cp d rule: less_induct)
  case less
  let ?ch = "get_child_boards cp b"
  let ?np = "opponent cp"
  have "\<forall>x \<in> set ?ch. \<exists>t :: int \<times> rat \<times> int.
          minimax_value mp ?np (snd x) (d - 1) = Num (fst t) \<and>
          expectimax_value mp ?np (snd x) (d - 1) = Inr (Num (fst (snd t))) \<and>
          best_case_value mp ?np (snd x) (d - 1) = Num (snd (snd t)) \<and>
          of_int (fst t) \<le> fst (snd t) \<and> fst (snd t) \<le> of_int (snd (snd t))"
  proof
    fix x
    assume x: "x \<in> set ?ch"
    then have mem: "(fst x, snd x) \<in> set ?ch" by simp
    have "card (empty_cells (snd x)) < card (empty_cells b)"
      by (rule child_fewer_empty [OF mem])
    moreover have "terminal_detects_full (snd x)"
      by (rule terminal_detects_full_child [OF less.prems mem])
    ultimately obtain m e M where
      "minimax_value mp ?np (snd x) (d - 1) = Num m"
      "expectimax_value mp ?np (snd x) (d - 1) = Inr (Num e)"
      "best_case_value mp ?np (snd x) (d - 1) = Num M" "of_int m \<le> e" "e \<le> of_int M"
      using less.hyps by blast
    then show "\<exists>t :: int \<times> rat \<times> int.
          minimax_value mp ?np (snd x) (d - 1) = Num (fst t) \<and>
          expectimax_value mp ?np (snd x) (d - 1) = Inr (Num (fst (snd t))) \<and>
          best_case_value mp ?np (snd x) (d - 1) = Num (snd (snd t)) \<and>
          of_int (fst t) \<le> fst (snd t) \<and> fst (snd t) \<le> of_int (snd (snd t))"
      by (intro exI [of _ "(m, e, M)"]) simp
  qed
  then have "\<exists>f :: nat \<times> board \<Rightarrow> int \<times> rat \<times> int. \<forall>x \<in> set ?ch.
          minimax_value mp ?np (snd x) (d - 1) = Num (fst (f x)) \<and>
          expectimax_value mp ?np (snd x) (d - 1) = Inr (Num (fst (snd (f x)))) \<and>
          best_case_value mp ?np (snd x) (d - 1) = Num (snd (snd (f x))) \<and>
          of_int (fst (f x)) \<le> fst (snd (f x)) \<and> fst (snd (f x)) \<le> of_int (snd (snd (f x)))"
    by (rule bchoice)
  then obtain f :: "nat \<times> board \<Rightarrow> int \<times> rat \<times> int" where f:
    "\<forall>x \<in> set ?ch.
          minimax_value mp ?np (snd x) (d - 1) = Num (fst (f x)) \<and>
          expectimax_value mp ?np (snd x) (d - 1) = Inr (Num (fst (snd (f x)))) \<and>
          best_case_value mp ?np (snd x) (d - 1) = Num (snd (snd (f x))) \<and>
          of_int (fst (f x)) \<le> fst (snd (f x)) \<and> fst (snd (f x)) \<le> of_int (snd (snd (f x)))"
    ..
  define fm where "fm x = fst (f x)" for x
  define fe where "fe x = fst (snd (f x))" for x
  define fM where "fM x = snd (snd (f x))" for x
  have le: "\<And>x. x \<in> set ?ch \<Longrightarrow> of_int (fm x) \<le> fe x \<and> fe x \<le> of_int (fM x)"
    using f by (simp add: fm_def fe_def fM_def)
  have mm: "map (\<lambda>(col, child_board). minimax_value mp ?np child_board (d - 1)) ?ch
              = map Num (map fm ?ch)"
    using f by (auto simp: fm_def case_prod_beta)
  have em: "map (\<lambda>(col, child_board). expectimax_value mp ?np child_board (d - 1)) ?ch
              = map Inr (map Num (map fe ?ch))"
    using f by (auto simp: fe_def case_prod_beta)
  have bm: "map (\<lambda>(col, child_board). best_case_value mp ?np child_board (d - 1)) ?ch
              = map Num (map fM ?ch)"
    using f by (auto simp: fM_def case_prod_beta)
  show ?case
  proof (cases "terminal b \<or> d = 0")
    case True
    then have "minimax_value mp cp b d = Num (evaluate mp b)"
      and "expectimax_value mp cp b d = Inr (Num (of_int (evaluate mp b)))"
      and "best_case_value mp cp b d = Num (evaluate mp b)"
      by (simp_all add: minimax_value.simps expectimax_value.simps best_case_value.simps)
    then show ?thesis by simp
  next
    case False
    then have ne: "?ch \<noteq> []"
      using terminal_detects_full_children [OF less.prems] by simp
    then have ne': "map fm ?ch \<noteq> []" "map fe ?ch \<noteq> []" "map fM ?ch \<noteq> []"
      by simp_all
    from max_loop_MinusInf [OF ne'(3)] obtain rM where rM:
      "max_loop (map Num (map fM ?ch)) MinusInf = Num rM" "rM \<in> set (map fM ?ch)"
      "\<forall>x \<in> set (map fM ?ch). x \<le> rM"
      by blast
    have "best_case_value mp cp b d = max_loop (map Num (map fM ?ch)) MinusInf"
      using False by (subst best_case_value.simps) (simp add: bm)
    with rM(1) have best: "best_case_value mp cp b d = Num rM"
      by simp
    show ?thesis
    proof (cases "cp = mp")
      case True
      from max_loop_MinusInf [OF ne'(1)] obtain rm where rm:
        "max_loop (map Num (map fm ?ch)) MinusInf = Num rm" "rm \<in> set (map fm ?ch)"
        "\<forall>x \<in> set (map fm ?ch). x \<le> rm"
        by blast
      from max_loop_MinusInf [OF ne'(2)] obtain re where re:
        "max_loop (map Num (map fe ?ch)) MinusInf = Num re" "re \<in> set (map fe ?ch)"
        "\<forall>x \<in> set (map fe ?ch). x \<le> re"
        by blast
      have "minimax_value mp cp b d = minimax_max_value mp cp b d"
        using False True by (subst minimax_value.simps) simp
      also have "\<dots> = max_loop (map Num (map fm ?ch)) MinusInf"
        by (simp add: mm)
      finally have v1: "minimax_value mp cp b d = Num rm"
        using rm(1) by simp
      have "expectimax_value mp cp b d = expectimax_max_value mp cp b d"
        using False True by (subst expectimax_value.simps) simp
      also have "\<dots> = emax_loop (map Inr (map Num (map fe ?ch))) MinusInf"
        by (simp add: em)
      also have "\<dots> = Inr (max_loop (map Num (map fe ?ch)) MinusInf)"
        by (rule emax_loop_Inr)
      finally have v2: "expectimax_value mp cp b d = Inr (Num re)"
        using re(1) by simp
      from rm(2) obtain x0 where x0: "x0 \<in> set ?ch" "rm = fm x0" by auto
      have "of_int rm \<le> fe x0" using le [OF x0(1)] x0(2) by simp
      also have "fe x0 \<le> re" using re(3) x0(1) by simp
      finally have b1: "of_int rm \<le> re" .
      from re(2) obtain x1 where x1: "x1 \<in> set ?ch" "re = fe x1" by auto
      have "re \<le> of_int (fM x1)" using le [OF x1(1)] x1(2) by simp
      also have "\<dots> \<le> of_int rM" using rM(3) x1(1) by simp
      finally have b2: "re \<le> of_int rM" .
      from v1 v2 best b1 b2 show ?thesis by blast
    next
      case cp: False
      from min_loop_PlusInf [OF ne'(1)] obtain rm where rm:
        "min_loop (map Num (map fm ?ch)) PlusInf = Num rm" "rm \<in> set (map fm ?ch)"
        "\<forall>x \<in> set (map fm ?ch). rm \<le> x"
        by blast
      let ?es = "map fe ?ch"
      let ?avg = "sum_list (map (\<lambda>v. (1 / of_nat (length ?es)) * v) ?es)"
      have "minimax_value mp cp b d = minimax_min_value mp cp b d"
        using False cp by (subst minimax_value.simps) simp
      also have "\<dots> = min_loop (map Num (map fm ?ch)) PlusInf"
        by (simp add: mm)
      finally have v1: "minimax_value mp cp b d = Num rm"
        using rm(1) by simp
      have em': "map (\<lambda>(col, child_board). expectimax_value mp ?np child_board (d - 1)) ?ch
                   = map (\<lambda>v. Inr (Num v)) ?es"
        by (simp add: em comp_def)
      have "expectimax_value mp cp b d = expectimax_expected_value mp cp b d"
        using False cp by (subst expectimax_value.simps) simp
      also have "\<dots> = expected_loop (map (\<lambda>v. Inr (Num v)) ?es) (1 / of_nat (length ?es)) (Num 0)"
        using ne by (simp add: em' Let_def)
      also have "\<dots> = Inr (Num (0 + ?avg))"
        by (rule expected_loop_Num)
      finally have v2: "expectimax_value mp cp b d = Inr (Num ?avg)"
        by simp
      have bounds: "\<forall>v \<in> set ?es. of_int rm \<le> v \<and> v \<le> of_int rM"
      proof
        fix v
        assume "v \<in> set ?es"
        then obtain x where x: "x \<in> set ?ch" "v = fe x" by auto
        have "of_int rm \<le> (of_int (fm x) :: rat)" using rm(3) x(1) by simp
        also have "\<dots> \<le> fe x" using le [OF x(1)] by simp
        finally have l: "of_int rm \<le> v" using x(2) by simp
        have "fe x \<le> of_int (fM x)" using le [OF x(1)] by simp
        also have "\<dots> \<le> of_int rM" using rM(3) x(1) by simp
        finally have "v \<le> of_int rM" using x(2) by simp
        with l show "of_int rm \<le> v \<and> v \<le> of_int rM" by simp
      qed
      have "of_int rm \<le> ?avg" and "?avg \<le> of_int rM"
        using weighted_average_bounds [OF ne'(2) bounds] by simp_all
      with v1 v2 best show ?thesis by blast
    qed
  qed
qed


section \<open>The top-level loop\<close>

lemma choose_loop_cases:
  "(choose_loop xs best pl = (best, pl) \<and> (\<forall>x \<in> set xs. snd x \<le> best)) \<or>
   (\<exists>pre c s post. xs = pre @ (c, s) # post \<and> choose_loop xs best pl = (s, Some c) \<and>
      best < s \<and> (\<forall>x \<in> set pre. snd x < s) \<and> (\<forall>x \<in> set post. snd x \<le> s))"
proof (induction xs arbitrary: best pl)
  case Nil
  show ?case by simp
next
  case (Cons x xs)
  obtain c0 s0 where x: "x = (c0, s0)" by (cases x)
  show ?case
  proof (cases "best < s0")
    case True
    from Cons [of s0 "Some c0"] show ?thesis
    proof (elim disjE exE conjE)
      assume "choose_loop xs s0 (Some c0) = (s0, Some c0)" and "\<forall>y \<in> set xs. snd y \<le> s0"
      with True have "x # xs = [] @ (c0, s0) # xs \<and> choose_loop (x # xs) best pl = (s0, Some c0) \<and>
          best < s0 \<and> (\<forall>y \<in> set []. snd y < s0) \<and> (\<forall>y \<in> set xs. snd y \<le> s0)"
        by (simp add: x)
      then show ?thesis by blast
    next
      fix pre c s post
      assume "xs = pre @ (c, s) # post" "choose_loop xs s0 (Some c0) = (s, Some c)" "s0 < s"
        "\<forall>y \<in> set pre. snd y < s" "\<forall>y \<in> set post. snd y \<le> s"
      with True have "x # xs = (x # pre) @ (c, s) # post \<and>
          choose_loop (x # xs) best pl = (s, Some c) \<and>
          best < s \<and> (\<forall>y \<in> set (x # pre). snd y < s) \<and> (\<forall>y \<in> set post. snd y \<le> s)"
        by (auto simp: x)
      then show ?thesis by blast
    qed
  next
    case False
    then have le: "s0 \<le> best" by simp
    from Cons [of best pl] show ?thesis
    proof (elim disjE exE conjE)
      assume "choose_loop xs best pl = (best, pl)" and "\<forall>y \<in> set xs. snd y \<le> best"
      with False le show ?thesis by (simp add: x)
    next
      fix pre c s post
      assume "xs = pre @ (c, s) # post" "choose_loop xs best pl = (s, Some c)" "best < s"
        "\<forall>y \<in> set pre. snd y < s" "\<forall>y \<in> set post. snd y \<le> s"
      with False le have "x # xs = (x # pre) @ (c, s) # post \<and>
          choose_loop (x # xs) best pl = (s, Some c) \<and>
          best < s \<and> (\<forall>y \<in> set (x # pre). snd y < s) \<and> (\<forall>y \<in> set post. snd y \<le> s)"
        by (auto simp: x)
      then show ?thesis by blast
    qed
  qed
qed

lemma choose_loop_None:
  "snd (choose_loop xs best None) = None \<longleftrightarrow> (\<forall>x \<in> set xs. snd x \<le> best)"
  using choose_loop_cases [of xs best None]
  by (auto simp: not_le [symmetric])



lemma minimax_value_finite:
  assumes "terminal_detects_full b"
  shows "\<exists>m. minimax_value mp cp b d = Num m"
  using value_bounds [OF assms, of mp cp d] by blast

lemma expectimax_value_finite:
  assumes "terminal_detects_full b"
  shows "\<exists>e. expectimax_value mp cp b d = Inr (Num e)"
  using value_bounds [OF assms, of mp cp d] by blast


lemma echoose_loop_all_Inr:
  assumes "\<forall>y \<in> set ys. \<exists>s. snd y = Inr s"
  shows "echoose_loop ys best pl = Inr (choose_loop (map (\<lambda>(c, v). (c, projr v)) ys) best pl)"
  using assms
  by (induction ys best pl rule: echoose_loop.induct) auto




lemma expectimax_search_finite:
  assumes "terminal_detects_full b"
  shows "expectimax_search p b d =
           Inr (choose_loop
                  (map (\<lambda>(col, child_board).
                          (col, projr (expectimax_value p (opponent p) child_board (d - 1))))
                       (get_child_boards p b))
                  MinusInf None)"
    and "\<forall>x \<in> set (get_child_boards p b).
           \<exists>e. expectimax_value p (opponent p) (snd x) (d - 1) = Inr (Num e)"
proof -
  let ?ch = "get_child_boards p b"
  let ?E = "\<lambda>cb. expectimax_value p (opponent p) cb (d - 1)"
  let ?ys = "map (\<lambda>(col, child_board). (col, ?E child_board)) ?ch"
  show fin: "\<forall>x \<in> set ?ch. \<exists>e. ?E (snd x) = Inr (Num e)"
  proof
    fix x
    assume "x \<in> set ?ch"
    then have "(fst x, snd x) \<in> set ?ch" by simp
    then have "terminal_detects_full (snd x)"
      by (rule terminal_detects_full_child [OF assms])
    then show "\<exists>e. ?E (snd x) = Inr (Num e)"
      by (rule expectimax_value_finite)
  qed
  then have "\<forall>y \<in> set ?ys. \<exists>s. snd y = Inr s"
    by (fastforce simp: case_prod_beta)
  from echoose_loop_all_Inr [OF this, of MinusInf None]
  have "expectimax_search p b d =
          Inr (choose_loop (map (\<lambda>(c, v). (c, projr v)) ?ys) MinusInf None)"
    by (simp only: expectimax_search_def)
  moreover have "map (\<lambda>(c, v). (c, projr v)) ?ys =
          map (\<lambda>(col, child_board). (col, projr (?E child_board))) ?ch"
    by (simp add: case_prod_beta comp_def)
  ultimately show "expectimax_search p b d =
           Inr (choose_loop
                  (map (\<lambda>(col, child_board). (col, projr (?E child_board))) ?ch)
                  MinusInf None)"
    by (simp only:)
qed

lemma expectimax_None_iff:
  assumes "terminal_detects_full b"
  shows "expectimax p b d = Inr None \<longleftrightarrow> get_child_boards p b = []"
    and "\<exists>r. expectimax p b d = Inr r"
proof -
  let ?ch = "get_child_boards p b"
  let ?E = "\<lambda>cb. expectimax_value p (opponent p) cb (d - 1)"
  let ?xs = "map (\<lambda>(col, child_board). (col, projr (?E child_board))) ?ch"
  note fin = expectimax_search_finite [OF assms, of p d]
  obtain best pl where r: "choose_loop ?xs MinusInf None = (best, pl)"
    by (cases "choose_loop ?xs MinusInf None")
  with fin(1) have e: "expectimax p b d = Inr pl"
    by (simp add: expectimax_def)
  then show "\<exists>r. expectimax p b d = Inr r" by blast
  have "pl = None \<longleftrightarrow> (\<forall>x \<in> set ?xs. snd x \<le> MinusInf)"
    using choose_loop_None [of ?xs MinusInf] r by simp
  also have "\<dots> \<longleftrightarrow> ?ch = []"
  proof
    assume all: "\<forall>x \<in> set ?xs. snd x \<le> MinusInf"
    show "?ch = []"
    proof (rule ccontr)
      assume "?ch \<noteq> []"
      then obtain x where x: "x \<in> set ?ch" by (cases ?ch) auto
      with fin(2) obtain e where "?E (snd x) = Inr (Num e)" by blast
      moreover from x have "(fst x, projr (?E (snd x))) \<in> set ?xs"
        by (auto simp: case_prod_beta image_iff)
      ultimately show False using all by fastforce
    qed
  next
    assume "?ch = []"
    then show "\<forall>x \<in> set ?xs. snd x \<le> MinusInf" by simp
  qed
  finally show "expectimax p b d = Inr None \<longleftrightarrow> ?ch = []"
    using e by simp
qed


text \<open>
  Two boards of the standard size for the concrete instances below: the empty board, and
  a board without a four-in-a-row whose only empty cells are the top cells of the last
  two columns.
\<close>

definition start_board :: board where
  "start_board = \<lparr>rows = 6, cols = 7, cells = (\<lambda>r c. EMPTY_SLOT)\<rparr>"











section \<open>Depth limits, bounds and empty successor sets\<close>

lemma reachable_trans:
  assumes "reachable b b'" and "reachable b' b''"
  shows "reachable b b''"
  using assms(2)
proof (induction rule: reachable.induct)
  case start
  show ?case by (rule assms(1))
next
  case (step x c y q)
  from step.IH step.hyps(2) show ?case
    by (rule reachable.step)
qed








text \<open>
  C9. When \<open>terminal()\<close> holds on every board without a placeable column that the search
  can visit from \<open>b\<close>, no visited node that is expanded has an empty successor list:
  \<open>expectimax\<close> raises no \<open>ZeroDivisionError\<close> (it returns), and every value of \<open>minimax\<close>
  and \<open>expectimax\<close> at a visited board is a finite number, not the \<open>-math.inf\<close> or
  \<open>math.inf\<close> of a maximum or minimum over nothing.
\<close>

theorem no_empty_successor_set:
  assumes "terminal_detects_full b"
  shows "(\<exists>r. expectimax p b d = Inr r) \<and>
         (\<forall>b' q. reachable b b' \<and> \<not> terminal b' \<longrightarrow> get_child_boards q b' \<noteq> []) \<and>
         (\<forall>b' mp cp d'. reachable b b' \<longrightarrow>
            (\<exists>e. expectimax_value mp cp b' d' = Inr (Num e)) \<and>
            (\<exists>m. minimax_value mp cp b' d' = Num m))"
proof (intro conjI allI impI)
  show "\<exists>r. expectimax p b d = Inr r"
    by (rule expectimax_None_iff(2) [OF assms])
next
  fix b' q
  assume r: "reachable b b' \<and> \<not> terminal b'"
  show "get_child_boards q b' \<noteq> []"
  proof
    assume "get_child_boards q b' = []"
    then have "\<forall>c < cols b'. \<not> placeable b' c"
      by (simp add: no_placeable_iff_no_children)
    with assms r show False
      unfolding terminal_detects_full_def by blast
  qed
next
  fix b' mp cp d'
  assume r: "reachable b b'"
  have t: "terminal_detects_full b'"
    unfolding terminal_detects_full_def
  proof (intro allI impI)
    fix b''
    assume r': "reachable b' b''" and none: "\<forall>c < cols b''. \<not> placeable b'' c"
    have "reachable b b''"
      by (rule reachable_trans [OF r r'])
    with assms none show "terminal b''"
      unfolding terminal_detects_full_def by blast
  qed
  show "\<exists>e. expectimax_value mp cp b' d' = Inr (Num e)"
    by (rule expectimax_value_finite [OF t])
  show "\<exists>m. minimax_value mp cp b' d' = Num m"
    by (rule minimax_value_finite [OF t])
qed

theorem no_empty_successor_set_witness:
  "terminal_detects_full start_board \<and> (\<exists>r. expectimax PLAYER1 start_board 2 = Inr r) \<and>
   (\<exists>m. minimax_value PLAYER1 PLAYER2 start_board (- 1) = Num m)"
proof -
  have "gravity start_board" by code_simp
  then have t: "terminal_detects_full start_board"
    by (rule gravity_terminal_detects_full)
  from no_empty_successor_set [OF t, of PLAYER1 2] reachable.start [of start_board] t
  show ?thesis by blast
qed


section \<open>The nodes of expectimax\<close>





lemma emax_loop_not_PlusInf:
  assumes "\<forall>x \<in> set xs. x \<noteq> Inr PlusInf" and "m \<noteq> PlusInf" and "emax_loop xs m = Inr v"
  shows "v \<noteq> PlusInf"
  using assms
proof (induction xs m rule: emax_loop.induct)
  case (1 max_score)
  then show ?case by simp
next
  case (2 e rest max_score)
  then show ?case by simp
next
  case (3 score rest max_score)
  have "max max_score score \<noteq> PlusInf"
    using "3.prems"(1,2) by (auto simp: max_def)
  with 3 show ?case by simp
qed

lemma expected_loop_not_PlusInf:
  assumes "\<forall>x \<in> set xs. x \<noteq> Inr PlusInf" and "t \<noteq> PlusInf" and "expected_loop xs prob t = Inr v"
  shows "v \<noteq> PlusInf"
  using assms
proof (induction xs prob t rule: expected_loop.induct)
  case (1 prob total_value)
  then show ?case by simp
next
  case (2 e rest prob total_value)
  then show ?case by simp
next
  case (3 v' rest prob total_value)
  have "score_add total_value (score_mult prob v') \<noteq> PlusInf"
    using "3.prems"(1,2)
    by (cases total_value; cases v') (auto simp: score_add_def score_mult_def)
  with 3 show ?case by simp
qed

lemma expectimax_value_not_PlusInf:
  "expectimax_value mp cp b d \<noteq> Inr PlusInf"
proof (induction "card (empty_cells b)" arbitrary: b cp d rule: less_induct)
  case less
  let ?ys = "map (\<lambda>(col, child_board). expectimax_value mp (opponent cp) child_board (d - 1))
               (get_child_boards cp b)"
  have ys: "\<forall>y \<in> set ?ys. y \<noteq> Inr PlusInf"
  proof
    fix y
    assume "y \<in> set ?ys"
    then obtain x where x: "x \<in> set (get_child_boards cp b)"
      and y: "y = expectimax_value mp (opponent cp) (snd x) (d - 1)"
      by (auto simp: case_prod_beta)
    from x have "(fst x, snd x) \<in> set (get_child_boards cp b)" by simp
    then have "card (empty_cells (snd x)) < card (empty_cells b)"
      by (rule child_fewer_empty)
    from less.hyps [OF this] y show "y \<noteq> Inr PlusInf" by simp
  qed
  show ?case
  proof
    assume v: "expectimax_value mp cp b d = Inr PlusInf"
    show False
    proof (cases "terminal b \<or> d = 0")
      case True
      with v show False by (simp add: expectimax_value.simps)
    next
      case False
      show False
      proof (cases "cp = mp")
        case True
        with False v have "emax_loop ?ys MinusInf = Inr PlusInf"
          by (simp add: expectimax_value.simps)
        with emax_loop_not_PlusInf [OF ys, of MinusInf PlusInf] show False by simp
      next
        case cp: False
        with False v have "expectimax_expected_value mp cp b d = Inr PlusInf"
          by (simp add: expectimax_value.simps)
        then have "expected_loop ?ys (1 / of_nat (length (get_child_boards cp b))) (Num 0) = Inr PlusInf"
          by (simp add: Let_def split: if_splits)
        with expected_loop_not_PlusInf [OF ys, of "Num 0" _ PlusInf] show False by simp
      qed
    qed
  qed
qed




section \<open>Boards as objects: the argument board is not mutated\<close>

text \<open>
  Modelled from the spec: boards are mutable objects. A store holds the board of every
  reference and the next free reference; \<open>clone()\<close> allocates a new object that holds a
  copy of the grid (a deep, independent copy), and \<open>place(player, col)\<close> overwrites the
  object it is called on, or fails with \<open>InvalidMove\<close>.
\<close>

record store =
  objects :: "nat \<Rightarrow> board"
  next_ref :: nat

definition st_clone :: "nat \<Rightarrow> store \<Rightarrow> nat \<times> store" where
  "st_clone a s =
     (next_ref s,
      s\<lparr>objects := (objects s)(next_ref s := objects s a), next_ref := Suc (next_ref s)\<rparr>)"

definition st_place :: "player \<Rightarrow> nat \<Rightarrow> nat \<Rightarrow> store \<Rightarrow> error + store" where
  "st_place player c a s =
     (case place player c (objects s a) of
        Inl e \<Rightarrow> Inl e
      | Inr b' \<Rightarrow> Inr (s\<lparr>objects := (objects s)(a := b')\<rparr>))"

text \<open>
  \<open>get_child_boards\<close> on the store: the loop over the columns clones the board at
  reference \<open>a\<close>, places the disc on the clone and appends the column with the reference
  of the clone; an exception of \<open>place\<close> ends the loop.
\<close>

fun st_child_loop :: "player \<Rightarrow> nat \<Rightarrow> nat list \<Rightarrow> (nat \<times> nat) list \<Rightarrow> store \<Rightarrow> error + (nat \<times> nat) list \<times> store" where
  "st_child_loop player a [] res s = Inr (res, s)"
| "st_child_loop player a (c # cs) res s =
     (if placeable (objects s a) c
      then (case st_clone a s of
              (tmp_board, s1) \<Rightarrow>
                (case st_place player c tmp_board s1 of
                   Inl e \<Rightarrow> Inl e
                 | Inr s2 \<Rightarrow> st_child_loop player a cs (res @ [(c, tmp_board)]) s2))
      else st_child_loop player a cs res s)"

definition st_get_child_boards :: "player \<Rightarrow> nat \<Rightarrow> store \<Rightarrow> error + (nat \<times> nat) list \<times> store" where
  "st_get_child_boards player a s = st_child_loop player a [0..<cols (objects s a)] [] s"

text \<open>
  The stores that sequences of calls of \<open>get_child_boards\<close> on allocated boards lead to.
\<close>

inductive calls :: "store \<Rightarrow> store \<Rightarrow> bool" for s :: store where
  none: "calls s s"
| more: "calls s s1 \<Longrightarrow> a < next_ref s1 \<Longrightarrow> st_get_child_boards player a s1 = Inr (res, s2) \<Longrightarrow>
         calls s s2"

lemma st_child_loop_frame:
  assumes "a < next_ref s" and "\<forall>x \<in> set res. snd x < next_ref s"
  shows "\<exists>res' s'. st_child_loop player a cs res s = Inr (res', s') \<and>
           (\<forall>a' < next_ref s. objects s' a' = objects s a') \<and> next_ref s \<le> next_ref s' \<and>
           (\<forall>x \<in> set res'. snd x < next_ref s') \<and>
           map (\<lambda>x. (fst x, objects s' (snd x))) res' =
             map (\<lambda>x. (fst x, objects s (snd x))) res @
             concat (map (successor player (objects s a)) cs)"
  using assms
proof (induction cs arbitrary: res s)
  case Nil
  then show ?case by simp
next
  case (Cons c cs)
  show ?case
  proof (cases "placeable (objects s a) c")
    case False
    with Cons.IH [OF Cons.prems] show ?thesis
      by (simp add: successor_def)
  next
    case True
    then obtain b' where b': "place player c (objects s a) = Inr b'"
      using place_placeable by blast
    let ?n = "next_ref s"
    let ?s2 = "s\<lparr>next_ref := Suc ?n, objects := (objects s)(?n := b')\<rparr>"
    have a: "a \<noteq> ?n" using Cons.prems(1) by simp
    have step: "st_child_loop player a (c # cs) res s =
                  st_child_loop player a cs (res @ [(c, ?n)]) ?s2"
      using True b' by (simp add: st_clone_def st_place_def)
    have p1: "a < next_ref ?s2" using Cons.prems(1) by simp
    have p2: "\<forall>x \<in> set (res @ [(c, ?n)]). snd x < next_ref ?s2"
      using Cons.prems(2) by (auto simp: less_Suc_eq)
    from Cons.IH [OF p1 p2] obtain res' s' where r:
      "st_child_loop player a cs (res @ [(c, ?n)]) ?s2 = Inr (res', s')"
      "\<forall>a' < next_ref ?s2. objects s' a' = objects ?s2 a'" "next_ref ?s2 \<le> next_ref s'"
      "\<forall>x \<in> set res'. snd x < next_ref s'"
      "map (\<lambda>x. (fst x, objects s' (snd x))) res' =
         map (\<lambda>x. (fst x, objects ?s2 (snd x))) (res @ [(c, ?n)]) @
         concat (map (successor player (objects ?s2 a)) cs)"
      by blast
    have old: "map (\<lambda>x. (fst x, if snd x = ?n then b' else objects s (snd x))) res =
               map (\<lambda>x. (fst x, objects s (snd x))) res"
      using Cons.prems(2) by (intro map_cong [OF refl]) auto
    have f1: "\<forall>a' < next_ref s. objects s' a' = objects s a'"
      using r(2) by (simp add: less_Suc_eq)
    have f2: "next_ref s \<le> next_ref s'"
      using r(3) by simp
    have f3: "map (\<lambda>x. (fst x, objects s' (snd x))) res' =
             map (\<lambda>x. (fst x, objects s (snd x))) res @
             concat (map (successor player (objects s a)) (c # cs))"
      using r(5) True b' a by (simp add: old successor_def clone_def)
    from step r(1) r(4) f1 f2 f3 show ?thesis by simp
  qed
qed

lemma st_get_child_boards_frame:
  assumes "a < next_ref s"
  shows "\<exists>res s'. st_get_child_boards player a s = Inr (res, s') \<and>
           (\<forall>a' < next_ref s. objects s' a' = objects s a') \<and> next_ref s \<le> next_ref s' \<and>
           map (\<lambda>x. (fst x, objects s' (snd x))) res = get_child_boards player (objects s a)"
proof -
  from st_child_loop_frame [OF assms, of "[]" player "[0..<cols (objects s a)]"]
  show ?thesis
    by (simp add: st_get_child_boards_def get_child_boards_concat) blast
qed

lemma calls_frame:
  assumes "calls s s'"
  shows "next_ref s \<le> next_ref s' \<and> (\<forall>a < next_ref s. objects s' a = objects s a)"
  using assms
proof (induction rule: calls.induct)
  case none
  show ?case by simp
next
  case (more s1 a player res s2)
  from st_get_child_boards_frame [OF more.hyps(2), of player] more.hyps(3)
  have "\<forall>a' < next_ref s1. objects s2 a' = objects s1 a'" and "next_ref s1 \<le> next_ref s2"
    by simp_all
  with more.IH show ?case by auto
qed

definition start_store :: store where
  "start_store = \<lparr>objects = (\<lambda>a. start_board), next_ref = 1\<rparr>"

text \<open>
  C10. In a store where boards are objects, \<open>get_child_boards\<close> returns, allocates one
  object per successor and leaves every object that existed before the call as it was,
  its argument board in particular; the objects it returns hold the successors of the
  value model. The same holds after any sequence of calls of \<open>get_child_boards\<close>, the only
  operation by which the three searches touch a board other than reading it.
\<close>

theorem get_child_boards_leaves_board_unchanged:
  assumes "a < next_ref s"
  shows "(\<exists>res s'. st_get_child_boards player a s = Inr (res, s') \<and>
            objects s' a = objects s a \<and>
            (\<forall>r c. cells (objects s' a) r c = cells (objects s a) r c) \<and>
            (\<forall>a' < next_ref s. objects s' a' = objects s a') \<and>
            map (\<lambda>x. (fst x, objects s' (snd x))) res = get_child_boards player (objects s a)) \<and>
         (\<forall>s''. calls s s'' \<longrightarrow> objects s'' a = objects s a)"
proof
  from st_get_child_boards_frame [OF assms, of player] assms
  show "\<exists>res s'. st_get_child_boards player a s = Inr (res, s') \<and>
            objects s' a = objects s a \<and>
            (\<forall>r c. cells (objects s' a) r c = cells (objects s a) r c) \<and>
            (\<forall>a' < next_ref s. objects s' a' = objects s a') \<and>
            map (\<lambda>x. (fst x, objects s' (snd x))) res = get_child_boards player (objects s a)"
    by fastforce
next
  show "\<forall>s''. calls s s'' \<longrightarrow> objects s'' a = objects s a"
    using calls_frame assms by blast
qed

theorem get_child_boards_leaves_board_unchanged_witness:
  "0 < next_ref start_store \<and>
   (\<exists>res s'. st_get_child_boards PLAYER1 0 start_store = Inr (res, s') \<and>
      objects s' 0 = start_board \<and> length res = 7)"
proof -
  have h: "0 < next_ref start_store" by (simp add: start_store_def)
  from get_child_boards_leaves_board_unchanged [OF h, of PLAYER1]
  obtain res s' where r: "st_get_child_boards PLAYER1 0 start_store = Inr (res, s')"
    "objects s' 0 = objects start_store 0"
    "map (\<lambda>x. (fst x, objects s' (snd x))) res = get_child_boards PLAYER1 (objects start_store 0)"
    by blast
  have "length (get_child_boards PLAYER1 start_board) = 7" by code_simp
  with r(3) have "length res = 7"
    by (metis length_map start_store_def store.select_convs(1))
  with h r(1,2) show ?thesis
    by (auto simp: start_store_def)
qed

end
